theory Spec2Isabelle
  imports Main "HOL-Library.Word"
begin

section \<open>The DWARF CFA register-rule stack of \<open>Source/dwarf_cfa_stack.cpp\<close>\<close>

subsection \<open>Configuration constants\<close>

text \<open>
  The header \<open>dwarf_cfa_stack.hpp\<close> that defines the four macros is not part of the
  sources at hand, so the constants are a parameter of every definition.
  \<open>config_ok\<close> records what the code itself demands of them: the static assertion of the
  constructor (\<open>DWARF_CFA_STACK_MAX_REGISTERS < DWARF_CFA_STACK_INVALID_ENTRY_IDX\<close>), and
  that indices, the depth and the sentinel are stored in \<open>uint8_t\<close> variables.
\<close>

record config =
  DWARF_CFA_STACK_MAX_REGISTERS :: nat
  DWARF_CFA_STACK_INVALID_ENTRY_IDX :: nat
  DWARF_CFA_STACK_MAX_STATES :: nat
  DWARF_CFA_STACK_BUCKET_COUNT :: nat

definition config_ok :: "config \<Rightarrow> bool" where
  "config_ok cfg \<longleftrightarrow>
     0 < DWARF_CFA_STACK_MAX_REGISTERS cfg \<and>
     DWARF_CFA_STACK_MAX_REGISTERS cfg < DWARF_CFA_STACK_INVALID_ENTRY_IDX cfg \<and>
     DWARF_CFA_STACK_INVALID_ENTRY_IDX cfg \<le> 255 \<and>
     0 < DWARF_CFA_STACK_MAX_STATES cfg \<and>
     DWARF_CFA_STACK_MAX_STATES cfg \<le> 255 \<and>
     0 < DWARF_CFA_STACK_BUCKET_COUNT cfg"

subsection \<open>Data\<close>

text \<open>
  One register-rule record. \<open>regnum\<close> is a \<open>uint32_t\<close>, \<open>value\<close> an \<open>int64_t\<close>; the rule
  is stored in one byte (\<open>PLCF_ASSERT(rule <= UINT8_MAX)\<close>), which the type \<open>8 word\<close>
  builds in. Indices (\<open>next\<close>, bucket heads, the free list head) are \<open>uint8_t\<close>; they are
  modelled as \<open>nat\<close>, and every store into one of them copies a value that is at most 255
  under \<open>config_ok\<close>, except where a \<open>mod 256\<close> is written out.
\<close>

record dwarf_cfa_reg_entry =
  e_regnum :: "32 word"
  e_rule :: "8 word"
  e_value :: "64 word"
  e_next :: nat

record cfa_stack =
  entries :: "dwarf_cfa_reg_entry list"
  free_list :: nat
  table_stack :: "nat list list"
  register_count :: "nat list"
  table_depth :: nat

record cfa_stack_iterator =
  bucket_idx :: nat
  cur_entry_idx :: nat

datatype fault = AssertionFailed | OutOfBounds

text \<open>
  The object has the declared array sizes whatever its contents:
  \<open>_entries[MAX_REGISTERS]\<close>, \<open>_table_stack[MAX_STATES][BUCKET_COUNT]\<close>,
  \<open>_register_count[MAX_STATES]\<close>.
\<close>

definition well_shaped :: "config \<Rightarrow> cfa_stack \<Rightarrow> bool" where
  "well_shaped cfg s \<longleftrightarrow>
     length (entries s) = DWARF_CFA_STACK_MAX_REGISTERS cfg \<and>
     length (table_stack s) = DWARF_CFA_STACK_MAX_STATES cfg \<and>
     list_all (\<lambda>row. length row = DWARF_CFA_STACK_BUCKET_COUNT cfg) (table_stack s) \<and>
     length (register_count s) = DWARF_CFA_STACK_MAX_STATES cfg"

subsection \<open>Operations\<close>

text \<open>
  The constructor writes the \<open>next\<close> link of every entry, the free list head, the count
  and the bucket heads of level 0 and the depth. It leaves everything else as it finds
  it: the object's memory before construction is the argument \<open>mem\<close>.
\<close>

definition dwarf_cfa_stack :: "config \<Rightarrow> cfa_stack \<Rightarrow> cfa_stack" where
  "dwarf_cfa_stack cfg mem =
     (let n = DWARF_CFA_STACK_MAX_REGISTERS cfg;
          es1 = fold (\<lambda>i es. es[i := (es ! i)\<lparr>e_next := (i + 1) mod 256\<rparr>]) [0..<n] (entries mem);
          es2 = es1[n - 1 := (es1 ! (n - 1))\<lparr>e_next := DWARF_CFA_STACK_INVALID_ENTRY_IDX cfg\<rparr>]
      in mem\<lparr>entries := es2,
             free_list := 0,
             register_count := (register_count mem)[0 := 0],
             table_depth := 0,
             table_stack := (table_stack mem)[0 :=
               replicate (DWARF_CFA_STACK_BUCKET_COUNT cfg) (DWARF_CFA_STACK_INVALID_ENTRY_IDX cfg)]\<rparr>)"

definition push_state :: "config \<Rightarrow> cfa_stack \<Rightarrow> fault + (bool \<times> cfa_stack)" where
  "push_state cfg s =
     (if \<not> table_depth s + 1 \<le> DWARF_CFA_STACK_MAX_STATES cfg then Inl AssertionFailed
      else if table_depth s + 1 = DWARF_CFA_STACK_MAX_STATES cfg then Inr (False, s)
      else let d = table_depth s + 1 in
        if \<not> (d < length (register_count s) \<and> d < length (table_stack s)) then Inl OutOfBounds
        else Inr (True,
          s\<lparr>table_depth := d,
            register_count := (register_count s)[d := 0],
            table_stack := (table_stack s)[d :=
              replicate (DWARF_CFA_STACK_BUCKET_COUNT cfg) (DWARF_CFA_STACK_INVALID_ENTRY_IDX cfg)]\<rparr>))"

definition pop_state :: "config \<Rightarrow> cfa_stack \<Rightarrow> fault + (bool \<times> cfa_stack)" where
  "pop_state cfg s =
     (if table_depth s = 0 then Inr (False, s)
      else Inr (True, s\<lparr>table_depth := table_depth s - 1\<rparr>))"

text \<open>
  The search loop of \<open>set_register\<close>. It ends with an existing entry for \<open>regnum\<close>, or with
  \<open>parent\<close>: the last entry of the chain, or \<open>NULL\<close> (\<open>None\<close>) when the bucket is empty.
  A chain that never reaches the sentinel makes the loop run forever: the value \<open>None\<close>.
\<close>

datatype search = Existing nat | Parent "nat option"

partial_function (option) set_register_loop ::
  "config \<Rightarrow> dwarf_cfa_reg_entry list \<Rightarrow> 32 word \<Rightarrow> nat option \<Rightarrow> nat \<Rightarrow> (fault + search) option"
where
  "set_register_loop cfg es regnum parent parent_idx =
     (if parent_idx = DWARF_CFA_STACK_INVALID_ENTRY_IDX cfg then Some (Inr (Parent parent))
      else if \<not> parent_idx < length es then Some (Inl OutOfBounds)
      else if e_regnum (es ! parent_idx) = regnum then Some (Inr (Existing parent_idx))
      else if e_next (es ! parent_idx) = DWARF_CFA_STACK_INVALID_ENTRY_IDX cfg
        then Some (Inr (Parent (Some parent_idx)))
      else set_register_loop cfg es regnum (Some parent_idx) (e_next (es ! parent_idx)))"

text \<open>
  What \<open>set_register\<close> does with a register that has no entry yet, once an entry is
  known to be free: it takes the head of the free list, initialises it, links it behind
  \<open>parent\<close> (or into the bucket head when \<open>parent\<close> is \<open>NULL\<close>) and increments the count,
  a \<open>uint8_t\<close>.
\<close>

definition set_register_insert ::
  "config \<Rightarrow> nat \<Rightarrow> nat option \<Rightarrow> 32 word \<Rightarrow> 8 word \<Rightarrow> 64 word \<Rightarrow> cfa_stack \<Rightarrow> cfa_stack"
where
  "set_register_insert cfg bucket parent regnum rule value s =
     (let d = table_depth s;
          entry_idx = free_list s;
          s1 = s\<lparr>free_list := e_next (entries s ! entry_idx)\<rparr>;
          s2 = s1\<lparr>entries := (entries s1)[entry_idx :=
                 \<lparr>e_regnum = regnum, e_rule = rule, e_value = value,
                  e_next = DWARF_CFA_STACK_INVALID_ENTRY_IDX cfg\<rparr>]\<rparr>;
          s3 = (case parent of
                  None \<Rightarrow> s2\<lparr>table_stack := (table_stack s2)[d := (table_stack s2 ! d)[bucket := entry_idx]]\<rparr>
                | Some p \<Rightarrow> s2\<lparr>entries := (entries s2)[p := (entries s2 ! p)\<lparr>e_next := entry_idx\<rparr>]\<rparr>)
      in s3\<lparr>register_count := (register_count s3)[d := (register_count s3 ! d + 1) mod 256]\<rparr>)"

definition set_register ::
  "config \<Rightarrow> cfa_stack \<Rightarrow> 32 word \<Rightarrow> 8 word \<Rightarrow> 64 word \<Rightarrow> (fault + (bool \<times> cfa_stack)) option"
where
  "set_register cfg s regnum rule value =
     (let bucket = unat regnum mod DWARF_CFA_STACK_BUCKET_COUNT cfg; d = table_depth s in
      if \<not> (d < length (table_stack s) \<and> bucket < length (table_stack s ! d) \<and>
             d < length (register_count s))
      then Some (Inl OutOfBounds)
      else case set_register_loop cfg (entries s) regnum None (table_stack s ! d ! bucket) of
          None \<Rightarrow> None
        | Some (Inl f) \<Rightarrow> Some (Inl f)
        | Some (Inr (Existing p)) \<Rightarrow>
            Some (Inr (True, s\<lparr>entries := (entries s)[p := (entries s ! p)\<lparr>e_rule := rule, e_value := value\<rparr>]\<rparr>))
        | Some (Inr (Parent parent)) \<Rightarrow>
            if free_list s = DWARF_CFA_STACK_INVALID_ENTRY_IDX cfg then Some (Inr (False, s))
            else if \<not> free_list s < length (entries s) then Some (Inl OutOfBounds)
            else Some (Inr (True, set_register_insert cfg bucket parent regnum rule value s)))"

partial_function (option) get_register_rule_loop ::
  "config \<Rightarrow> dwarf_cfa_reg_entry list \<Rightarrow> 32 word \<Rightarrow> nat \<Rightarrow> (fault + (8 word \<times> 64 word) option) option"
where
  "get_register_rule_loop cfg es regnum entry_idx =
     (if entry_idx = DWARF_CFA_STACK_INVALID_ENTRY_IDX cfg then Some (Inr None)
      else if \<not> entry_idx < length es then Some (Inl OutOfBounds)
      else if e_regnum (es ! entry_idx) \<noteq> regnum then
        (if e_next (es ! entry_idx) = DWARF_CFA_STACK_INVALID_ENTRY_IDX cfg then Some (Inr None)
         else get_register_rule_loop cfg es regnum (e_next (es ! entry_idx)))
      else Some (Inr (Some (e_rule (es ! entry_idx), e_value (es ! entry_idx)))))"

definition get_register_rule ::
  "config \<Rightarrow> cfa_stack \<Rightarrow> 32 word \<Rightarrow> (fault + (8 word \<times> 64 word) option) option"
where
  "get_register_rule cfg s regnum =
     (let bucket = unat regnum mod DWARF_CFA_STACK_BUCKET_COUNT cfg; d = table_depth s in
      if \<not> (d < length (table_stack s) \<and> bucket < length (table_stack s ! d))
      then Some (Inl OutOfBounds)
      else get_register_rule_loop cfg (entries s) regnum (table_stack s ! d ! bucket))"

text \<open>
  What the body of the loop of \<open>remove_register\<close> does with a matching entry: it takes the
  entry out of the chain (through \<open>prev\<close>, or through the bucket head when \<open>prev\<close> is
  \<open>NULL\<close>), puts it at the head of the free list and decrements the count, a \<open>uint8_t\<close>.
\<close>

definition remove_register_unlink :: "nat \<Rightarrow> nat option \<Rightarrow> nat \<Rightarrow> cfa_stack \<Rightarrow> cfa_stack" where
  "remove_register_unlink bucket prev entry_idx s =
     (let d = table_depth s;
          s1 = (case prev of
                  Some p \<Rightarrow> s\<lparr>entries := (entries s)[p :=
                               (entries s ! p)\<lparr>e_next := e_next (entries s ! entry_idx)\<rparr>]\<rparr>
                | None \<Rightarrow> s\<lparr>table_stack := (table_stack s)[d :=
                               (table_stack s ! d)[bucket := e_next (entries s ! entry_idx)]]\<rparr>);
          s2 = s1\<lparr>entries := (entries s1)[entry_idx :=
                   (entries s1 ! entry_idx)\<lparr>e_next := free_list s1\<rparr>]\<rparr>;
          s3 = s2\<lparr>free_list := entry_idx\<rparr>
      in s3\<lparr>register_count := (register_count s3)[d :=
                   (register_count s3 ! d + 255) mod 256]\<rparr>)"

text \<open>
  The loop of \<open>remove_register\<close>. Its variables are \<open>entry\<close> (a pointer, \<open>NULL\<close> at first),
  \<open>entry_idx\<close> and the object; \<open>prev\<close> is the \<open>entry\<close> of the round before. After a
  removal the loop does not stop: it goes on with \<open>entry_idx = entry->next\<close>, as the
  \<open>for\<close> statement says, and \<open>entry->next\<close> is by then the old head of the free list.
\<close>

partial_function (option) remove_register_loop ::
  "config \<Rightarrow> 32 word \<Rightarrow> nat \<Rightarrow> nat option \<Rightarrow> nat \<Rightarrow> cfa_stack \<Rightarrow> (fault + cfa_stack) option"
where
  "remove_register_loop cfg regnum bucket entry entry_idx s =
     (if entry_idx = DWARF_CFA_STACK_INVALID_ENTRY_IDX cfg then Some (Inr s)
      else if \<not> entry_idx < length (entries s) then Some (Inl OutOfBounds)
      else if e_regnum (entries s ! entry_idx) \<noteq> regnum then
        remove_register_loop cfg regnum bucket (Some entry_idx) (e_next (entries s ! entry_idx)) s
      else
        let s' = remove_register_unlink bucket entry entry_idx s
        in remove_register_loop cfg regnum bucket (Some entry_idx) (e_next (entries s' ! entry_idx)) s')"

definition remove_register :: "config \<Rightarrow> cfa_stack \<Rightarrow> 32 word \<Rightarrow> (fault + cfa_stack) option" where
  "remove_register cfg s regnum =
     (let bucket = unat regnum mod DWARF_CFA_STACK_BUCKET_COUNT cfg; d = table_depth s in
      if \<not> (d < length (table_stack s) \<and> bucket < length (table_stack s ! d) \<and>
             d < length (register_count s))
      then Some (Inl OutOfBounds)
      else remove_register_loop cfg regnum bucket None (table_stack s ! d ! bucket) s)"

definition get_register_count :: "cfa_stack \<Rightarrow> fault + nat" where
  "get_register_count s =
     (if \<not> table_depth s < length (register_count s) then Inl OutOfBounds
      else Inr (register_count s ! table_depth s))"

subsection \<open>The iterator\<close>

definition dwarf_cfa_stack_iterator :: "config \<Rightarrow> cfa_stack_iterator" where
  "dwarf_cfa_stack_iterator cfg =
     \<lparr>bucket_idx = 0, cur_entry_idx = DWARF_CFA_STACK_INVALID_ENTRY_IDX cfg\<rparr>"

text \<open>
  The \<open>for\<close> loop of \<open>next\<close> over the bucket heads of the current level: it returns the
  new \<open>_bucket_idx\<close> and \<open>_cur_entry_idx\<close>.
\<close>

function iterator_next_bucket :: "config \<Rightarrow> nat list \<Rightarrow> nat \<Rightarrow> fault + (nat \<times> nat)" where
  "iterator_next_bucket cfg row b =
     (if b < DWARF_CFA_STACK_BUCKET_COUNT cfg then
        (if \<not> b < length row then Inl OutOfBounds
         else if row ! b \<noteq> DWARF_CFA_STACK_INVALID_ENTRY_IDX cfg then Inr (b, row ! b)
         else iterator_next_bucket cfg row (b + 1))
      else Inr (b, DWARF_CFA_STACK_INVALID_ENTRY_IDX cfg))"
  by pat_completeness auto
termination
  by (relation "measure (\<lambda>(cfg, row, b). DWARF_CFA_STACK_BUCKET_COUNT cfg - b)") auto

declare iterator_next_bucket.simps [simp del]

definition iterator_next ::
  "config \<Rightarrow> cfa_stack \<Rightarrow> cfa_stack_iterator \<Rightarrow>
     fault + (cfa_stack_iterator \<times> (32 word \<times> 8 word \<times> 64 word) option)"
where
  "iterator_next cfg s it =
     (let inv = DWARF_CFA_STACK_INVALID_ENTRY_IDX cfg in
      case (if cur_entry_idx it \<noteq> inv then
              (if \<not> cur_entry_idx it < length (entries s) then Inl OutOfBounds
               else let c = e_next (entries s ! cur_entry_idx it) in
                 Inr (it\<lparr>cur_entry_idx := c,
                         bucket_idx := (if c = inv then bucket_idx it + 1 else bucket_idx it)\<rparr>))
            else Inr it) of
        Inl f \<Rightarrow> Inl f
      | Inr it1 \<Rightarrow>
          (case (if cur_entry_idx it1 = inv then
                   (if \<not> table_depth s < length (table_stack s) then Inl OutOfBounds
                    else case iterator_next_bucket cfg (table_stack s ! table_depth s) (bucket_idx it1) of
                        Inl f \<Rightarrow> Inl f
                      | Inr (b, c) \<Rightarrow> Inr (it1\<lparr>bucket_idx := b, cur_entry_idx := c\<rparr>))
                 else Inr it1) of
             Inl f \<Rightarrow> Inl f
           | Inr it2 \<Rightarrow>
               if cur_entry_idx it2 = inv then Inr (it2, None)
               else if \<not> cur_entry_idx it2 < length (entries s) then Inl OutOfBounds
               else let entry = entries s ! cur_entry_idx it2 in
                 Inr (it2, Some (e_regnum entry, e_rule entry, e_value entry))))"

text \<open>The outcomes of the first \<open>n\<close> calls of \<open>next\<close> on one iterator, the stack untouched.\<close>

fun iterator_calls ::
  "config \<Rightarrow> cfa_stack \<Rightarrow> nat \<Rightarrow> cfa_stack_iterator \<Rightarrow> fault + (32 word \<times> 8 word \<times> 64 word) option list"
where
  "iterator_calls cfg s 0 it = Inr []"
| "iterator_calls cfg s (Suc n) it =
     (case iterator_next cfg s it of
        Inl f \<Rightarrow> Inl f
      | Inr (it', out) \<Rightarrow>
          (case iterator_calls cfg s n it' of Inl f \<Rightarrow> Inl f | Inr outs \<Rightarrow> Inr (out # outs)))"

subsection \<open>Reachable states\<close>

text \<open>
  One call of a mutating public operation that returns, with either boolean result.
  A call that faults or does not return has no successor state.
\<close>

inductive step :: "config \<Rightarrow> cfa_stack \<Rightarrow> cfa_stack \<Rightarrow> bool" for cfg where
  push: "push_state cfg s = Inr (b, s') \<Longrightarrow> step cfg s s'"
| pop: "pop_state cfg s = Inr (b, s') \<Longrightarrow> step cfg s s'"
| set: "set_register cfg s regnum rule v = Some (Inr (b, s')) \<Longrightarrow> step cfg s s'"
| remove: "remove_register cfg s regnum = Some (Inr s') \<Longrightarrow> step cfg s s'"

inductive reachable :: "config \<Rightarrow> cfa_stack \<Rightarrow> bool" for cfg where
  init: "config_ok cfg \<Longrightarrow> well_shaped cfg mem \<Longrightarrow> reachable cfg (dwarf_cfa_stack cfg mem)"
| step: "reachable cfg s \<Longrightarrow> step cfg s s' \<Longrightarrow> reachable cfg s'"

declare set_register_loop.simps [code]
declare get_register_rule_loop.simps [code]
declare remove_register_loop.simps [code]

subsection \<open>Invariants\<close>

definition valid_idx :: "config \<Rightarrow> nat \<Rightarrow> bool" where
  "valid_idx cfg i \<longleftrightarrow>
     i = DWARF_CFA_STACK_INVALID_ENTRY_IDX cfg \<or> i < DWARF_CFA_STACK_MAX_REGISTERS cfg"

definition links_ok :: "config \<Rightarrow> cfa_stack \<Rightarrow> bool" where
  "links_ok cfg s \<longleftrightarrow>
     list_all (\<lambda>e. valid_idx cfg (e_next e)) (entries s) \<and>
     valid_idx cfg (free_list s) \<and>
     list_all (list_all (valid_idx cfg)) (take (table_depth s + 1) (table_stack s))"

definition basic_inv :: "config \<Rightarrow> cfa_stack \<Rightarrow> bool" where
  "basic_inv cfg s \<longleftrightarrow>
     config_ok cfg \<and> well_shaped cfg s \<and>
     table_depth s < DWARF_CFA_STACK_MAX_STATES cfg \<and> links_ok cfg s"


subsection \<open>A small configuration and an object before construction\<close>

text \<open>
  Four entries, three levels, two buckets, the sentinel 255; and an object whose memory
  holds arbitrary bytes, as a local variable's does before its constructor runs.
\<close>

definition cfg_small :: config where
  "cfg_small =
     \<lparr>DWARF_CFA_STACK_MAX_REGISTERS = 4, DWARF_CFA_STACK_INVALID_ENTRY_IDX = 255,
      DWARF_CFA_STACK_MAX_STATES = 3, DWARF_CFA_STACK_BUCKET_COUNT = 2\<rparr>"

definition raw_mem :: cfa_stack where
  "raw_mem =
     \<lparr>entries = [\<lparr>e_regnum = 0, e_rule = 0, e_value = 0, e_next = 9\<rparr>,
                 \<lparr>e_regnum = 0, e_rule = 0, e_value = 0, e_next = 9\<rparr>,
                 \<lparr>e_regnum = 0, e_rule = 0, e_value = 0, e_next = 9\<rparr>,
                 \<lparr>e_regnum = 0, e_rule = 0, e_value = 0, e_next = 9\<rparr>],
      free_list = 9,
      table_stack = [[7, 7], [7, 7], [7, 7]],
      register_count = [9, 9, 9],
      table_depth = 9\<rparr>"

definition fresh_small :: cfa_stack where
  "fresh_small = dwarf_cfa_stack cfg_small raw_mem"

subsection \<open>The loop of \<open>remove_register\<close> after a removal\<close>

text \<open>
  \<open>spinning cfg r a b s\<close>: the loop of \<open>remove_register\<close> is at entry \<open>b\<close> with
  \<open>prev\<close> pointing to \<open>a\<close>, both entries carry register number \<open>r\<close>, and \<open>a\<close> is the head
  of the free list.
\<close>

definition spinning :: "config \<Rightarrow> 32 word \<Rightarrow> nat \<Rightarrow> nat \<Rightarrow> cfa_stack \<Rightarrow> bool" where
  "spinning cfg r a b s \<longleftrightarrow>
     a \<noteq> b \<and> a < length (entries s) \<and> b < length (entries s) \<and>
     a \<noteq> DWARF_CFA_STACK_INVALID_ENTRY_IDX cfg \<and> b \<noteq> DWARF_CFA_STACK_INVALID_ENTRY_IDX cfg \<and>
     e_regnum (entries s ! a) = r \<and> e_regnum (entries s ! b) = r \<and> free_list s = a"

text \<open>
  States of the small configuration: after \<open>set_register(1)\<close>, \<open>set_register(2)\<close>,
  \<open>remove_register(1)\<close>, \<open>remove_register(2)\<close> on the fresh object, and after one more
  \<open>set_register(1)\<close>.
\<close>

definition after_two_removals :: cfa_stack where
  "after_two_removals =
     \<lparr>entries = [\<lparr>e_regnum = 1, e_rule = 0, e_value = 0, e_next = 2\<rparr>,
                 \<lparr>e_regnum = 2, e_rule = 0, e_value = 0, e_next = 0\<rparr>,
                 \<lparr>e_regnum = 0, e_rule = 0, e_value = 0, e_next = 3\<rparr>,
                 \<lparr>e_regnum = 0, e_rule = 0, e_value = 0, e_next = 255\<rparr>],
      free_list = 1,
      table_stack = [[255, 255], [7, 7], [7, 7]],
      register_count = [0, 9, 9],
      table_depth = 0\<rparr>"

definition stale_in_free_list :: cfa_stack where
  "stale_in_free_list =
     \<lparr>entries = [\<lparr>e_regnum = 1, e_rule = 0, e_value = 0, e_next = 2\<rparr>,
                 \<lparr>e_regnum = 1, e_rule = 0, e_value = 0, e_next = 255\<rparr>,
                 \<lparr>e_regnum = 0, e_rule = 0, e_value = 0, e_next = 3\<rparr>,
                 \<lparr>e_regnum = 0, e_rule = 0, e_value = 0, e_next = 255\<rparr>],
      free_list = 0,
      table_stack = [[255, 1], [7, 7], [7, 7]],
      register_count = [1, 9, 9],
      table_depth = 0\<rparr>"

text \<open>What the iterator and \<open>get_register_rule\<close> report of the entry at an index.\<close>

definition entry_triple :: "cfa_stack \<Rightarrow> nat \<Rightarrow> 32 word \<times> 8 word \<times> 64 word" where
  "entry_triple s i = (e_regnum (entries s ! i), e_rule (entries s ! i), e_value (entries s ! i))"


subsection \<open>Chains\<close>

text \<open>
  \<open>seg nil nx h xs t\<close>: following the links \<open>nx\<close> from \<open>h\<close> visits exactly the indices
  \<open>xs\<close>, each in bounds and none the sentinel, and arrives at \<open>t\<close>. A chain is a segment
  that arrives at the sentinel.
\<close>

primrec seg :: "nat \<Rightarrow> nat list \<Rightarrow> nat \<Rightarrow> nat list \<Rightarrow> nat \<Rightarrow> bool" where
  "seg nil nx h [] t \<longleftrightarrow> h = t"
| "seg nil nx h (x # xs) t \<longleftrightarrow> h = x \<and> x \<noteq> nil \<and> x < length nx \<and> seg nil nx (nx ! x) xs t"

definition path :: "nat \<Rightarrow> nat list \<Rightarrow> nat \<Rightarrow> nat list \<Rightarrow> bool" where
  "path nil nx h xs \<longleftrightarrow> seg nil nx h xs nil"

text \<open>
  The indices met from \<open>h\<close> on, at most \<open>n\<close> of them: the walk stops at the sentinel and at
  an index out of bounds.
\<close>

fun chain :: "nat \<Rightarrow> nat list \<Rightarrow> nat \<Rightarrow> nat \<Rightarrow> nat list" where
  "chain nil nx 0 h = []"
| "chain nil nx (Suc n) h =
     (if h = nil \<or> \<not> h < length nx then [] else h # chain nil nx n (nx ! h))"

definition nexts :: "cfa_stack \<Rightarrow> nat list" where
  "nexts s = map e_next (entries s)"

definition chain_from :: "config \<Rightarrow> cfa_stack \<Rightarrow> nat \<Rightarrow> nat list" where
  "chain_from cfg s h =
     chain (DWARF_CFA_STACK_INVALID_ENTRY_IDX cfg) (nexts s) (length (entries s)) h"

definition free_chain :: "config \<Rightarrow> cfa_stack \<Rightarrow> nat list" where
  "free_chain cfg s = chain_from cfg s (free_list s)"

definition bucket_chain :: "config \<Rightarrow> cfa_stack \<Rightarrow> nat \<Rightarrow> nat \<Rightarrow> nat list" where
  "bucket_chain cfg s d b = chain_from cfg s (table_stack s ! d ! b)"

text \<open>The register rules of bucket \<open>b\<close> of level \<open>d\<close>, in chain order, and of a whole level.\<close>

definition bucket_view :: "config \<Rightarrow> cfa_stack \<Rightarrow> nat \<Rightarrow> nat \<Rightarrow> (32 word \<times> 8 word \<times> 64 word) list" where
  "bucket_view cfg s d b = map (entry_triple s) (bucket_chain cfg s d b)"

definition level_view :: "config \<Rightarrow> cfa_stack \<Rightarrow> nat \<Rightarrow> (32 word \<times> 8 word \<times> 64 word) list" where
  "level_view cfg s d =
     concat (map (bucket_view cfg s d) [0..<DWARF_CFA_STACK_BUCKET_COUNT cfg])"

text \<open>
  The structural invariant: the free list and the bucket chains of the levels in use are
  chains; no entry is on two of them; an entry of bucket \<open>b\<close> has a register number that
  hashes to \<open>b\<close>, and a bucket holds a register number once; the count of a level is the
  number of its entries.
\<close>

definition chains_ok :: "config \<Rightarrow> cfa_stack \<Rightarrow> bool" where
  "chains_ok cfg s \<longleftrightarrow>
     path (DWARF_CFA_STACK_INVALID_ENTRY_IDX cfg) (nexts s) (free_list s) (free_chain cfg s) \<and>
     (\<forall>d\<le>table_depth s. \<forall>b<DWARF_CFA_STACK_BUCKET_COUNT cfg.
        path (DWARF_CFA_STACK_INVALID_ENTRY_IDX cfg) (nexts s) (table_stack s ! d ! b)
          (bucket_chain cfg s d b))"

definition separate :: "config \<Rightarrow> cfa_stack \<Rightarrow> bool" where
  "separate cfg s \<longleftrightarrow>
     (\<forall>d\<le>table_depth s. \<forall>b<DWARF_CFA_STACK_BUCKET_COUNT cfg.
        set (bucket_chain cfg s d b) \<inter> set (free_chain cfg s) = {}) \<and>
     (\<forall>d\<le>table_depth s. \<forall>b<DWARF_CFA_STACK_BUCKET_COUNT cfg.
      \<forall>d'\<le>table_depth s. \<forall>b'<DWARF_CFA_STACK_BUCKET_COUNT cfg.
        (d, b) \<noteq> (d', b') \<longrightarrow>
        set (bucket_chain cfg s d b) \<inter> set (bucket_chain cfg s d' b') = {})"

definition keyed :: "config \<Rightarrow> cfa_stack \<Rightarrow> bool" where
  "keyed cfg s \<longleftrightarrow>
     (\<forall>d\<le>table_depth s. \<forall>b<DWARF_CFA_STACK_BUCKET_COUNT cfg.
        (\<forall>i\<in>set (bucket_chain cfg s d b).
           unat (e_regnum (entries s ! i)) mod DWARF_CFA_STACK_BUCKET_COUNT cfg = b) \<and>
        distinct (map (\<lambda>i. e_regnum (entries s ! i)) (bucket_chain cfg s d b)))"

definition counted :: "config \<Rightarrow> cfa_stack \<Rightarrow> bool" where
  "counted cfg s \<longleftrightarrow>
     (\<forall>d\<le>table_depth s. register_count s ! d = length (level_view cfg s d))"

definition wf :: "config \<Rightarrow> cfa_stack \<Rightarrow> bool" where
  "wf cfg s \<longleftrightarrow>
     basic_inv cfg s \<and> chains_ok cfg s \<and> separate cfg s \<and> keyed cfg s \<and> counted cfg s"

text \<open>
  \<open>layout cfg s F L\<close>: the free list of \<open>s\<close> is the chain \<open>F\<close> and bucket \<open>b\<close> of each level
  \<open>d\<close> in use is the chain \<open>L d b\<close>.
\<close>

definition layout :: "config \<Rightarrow> cfa_stack \<Rightarrow> nat list \<Rightarrow> (nat \<Rightarrow> nat \<Rightarrow> nat list) \<Rightarrow> bool" where
  "layout cfg s F L \<longleftrightarrow>
     path (DWARF_CFA_STACK_INVALID_ENTRY_IDX cfg) (nexts s) (free_list s) F \<and>
     (\<forall>d\<le>table_depth s. \<forall>b<DWARF_CFA_STACK_BUCKET_COUNT cfg.
        path (DWARF_CFA_STACK_INVALID_ENTRY_IDX cfg) (nexts s) (table_stack s ! d ! b) (L d b))"

text \<open>The number of entries held by the levels in use: the sum of their register counts.\<close>

definition live_count :: "cfa_stack \<Rightarrow> nat" where
  "live_count s = sum_list (take (table_depth s + 1) (register_count s))"

text \<open>The small object after \<open>set_register(1, 5, 6)\<close>.\<close>

definition one_register :: cfa_stack where
  "one_register =
     \<lparr>entries = [\<lparr>e_regnum = 1, e_rule = 5, e_value = 6, e_next = 255\<rparr>,
                 \<lparr>e_regnum = 0, e_rule = 0, e_value = 0, e_next = 2\<rparr>,
                 \<lparr>e_regnum = 0, e_rule = 0, e_value = 0, e_next = 3\<rparr>,
                 \<lparr>e_regnum = 0, e_rule = 0, e_value = 0, e_next = 255\<rparr>],
      free_list = 1,
      table_stack = [[255, 0], [7, 7], [7, 7]],
      register_count = [1, 9, 9],
      table_depth = 0\<rparr>"

text \<open>
  The small object after \<open>set_register\<close> of the registers 1, 2, 3 and 4 (rule 0, value 0):
  every entry of the pool is in use.
\<close>

definition full_pool :: cfa_stack where
  "full_pool =
     \<lparr>entries = [\<lparr>e_regnum = 1, e_rule = 0, e_value = 0, e_next = 2\<rparr>,
                 \<lparr>e_regnum = 2, e_rule = 0, e_value = 0, e_next = 3\<rparr>,
                 \<lparr>e_regnum = 3, e_rule = 0, e_value = 0, e_next = 255\<rparr>,
                 \<lparr>e_regnum = 4, e_rule = 0, e_value = 0, e_next = 255\<rparr>],
      free_list = 255,
      table_stack = [[1, 0], [7, 7], [7, 7]],
      register_count = [4, 9, 9],
      table_depth = 0\<rparr>"

subsection \<open>Where an entry is reachable from\<close>

text \<open>
  The places an entry can be chained at: the free list, or bucket \<open>b\<close> of level \<open>d\<close>.
  \<open>owners cfg s n i\<close> lists the places, among the free list and the buckets of the levels
  below \<open>n\<close>, from which the links lead to entry \<open>i\<close>.
\<close>

datatype place = Free_list | Bucket nat nat

fun place_chain :: "config \<Rightarrow> cfa_stack \<Rightarrow> place \<Rightarrow> nat list" where
  "place_chain cfg s Free_list = free_chain cfg s"
| "place_chain cfg s (Bucket d b) = bucket_chain cfg s d b"

definition places :: "config \<Rightarrow> nat \<Rightarrow> place list" where
  "places cfg n =
     Free_list # concat (map (\<lambda>d. map (Bucket d) [0..<DWARF_CFA_STACK_BUCKET_COUNT cfg]) [0..<n])"

definition owners :: "config \<Rightarrow> cfa_stack \<Rightarrow> nat \<Rightarrow> nat \<Rightarrow> place list" where
  "owners cfg s n i = filter (\<lambda>p. i \<in> set (place_chain cfg s p)) (places cfg n)"

text \<open>
  The small object after \<open>push_state\<close>, \<open>set_register(1, 0, 0)\<close>, \<open>pop_state\<close> and
  \<open>push_state\<close>.
\<close>

definition leaked_entry :: cfa_stack where
  "leaked_entry =
     \<lparr>entries = [\<lparr>e_regnum = 1, e_rule = 0, e_value = 0, e_next = 255\<rparr>,
                 \<lparr>e_regnum = 0, e_rule = 0, e_value = 0, e_next = 2\<rparr>,
                 \<lparr>e_regnum = 0, e_rule = 0, e_value = 0, e_next = 3\<rparr>,
                 \<lparr>e_regnum = 0, e_rule = 0, e_value = 0, e_next = 255\<rparr>],
      free_list = 1,
      table_stack = [[255, 255], [255, 255], [7, 7]],
      register_count = [0, 0, 9],
      table_depth = 1\<rparr>"

subsection \<open>The position of an iterator\<close>



subsection \<open>Calls between a push and the pop that matches it\<close>

text \<open>
  \<open>nested cfg d s s'\<close>: a sequence of calls of \<open>push_state\<close>, \<open>pop_state\<close>, \<open>set_register\<close>
  and \<open>remove_register\<close> leads from \<open>s\<close> to \<open>s'\<close>, each call returns, and the depth stays
  above \<open>d\<close> after each of them. These are the calls between a \<open>push_state\<close> that leaves
  depth \<open>d\<close> and the \<open>pop_state\<close> that matches it.
\<close>

inductive nested :: "config \<Rightarrow> nat \<Rightarrow> cfa_stack \<Rightarrow> cfa_stack \<Rightarrow> bool" for cfg d where
  none: "nested cfg d s s"
| call: "nested cfg d s s' \<Longrightarrow> step cfg s' s'' \<Longrightarrow> d < table_depth s'' \<Longrightarrow> nested cfg d s s''"

text \<open>
  The small object after \<open>set_register(1, 5, 6)\<close> and \<open>push_state\<close>; then after
  \<open>set_register(1, 7, 8)\<close>; then after \<open>remove_register(1)\<close>; then after \<open>pop_state\<close>.
\<close>

definition frame_pushed :: cfa_stack where
  "frame_pushed =
     \<lparr>entries = [\<lparr>e_regnum = 1, e_rule = 5, e_value = 6, e_next = 255\<rparr>,
                 \<lparr>e_regnum = 0, e_rule = 0, e_value = 0, e_next = 2\<rparr>,
                 \<lparr>e_regnum = 0, e_rule = 0, e_value = 0, e_next = 3\<rparr>,
                 \<lparr>e_regnum = 0, e_rule = 0, e_value = 0, e_next = 255\<rparr>],
      free_list = 1,
      table_stack = [[255, 0], [255, 255], [7, 7]],
      register_count = [1, 0, 9],
      table_depth = 1\<rparr>"

definition frame_set :: cfa_stack where
  "frame_set =
     \<lparr>entries = [\<lparr>e_regnum = 1, e_rule = 5, e_value = 6, e_next = 255\<rparr>,
                 \<lparr>e_regnum = 1, e_rule = 7, e_value = 8, e_next = 255\<rparr>,
                 \<lparr>e_regnum = 0, e_rule = 0, e_value = 0, e_next = 3\<rparr>,
                 \<lparr>e_regnum = 0, e_rule = 0, e_value = 0, e_next = 255\<rparr>],
      free_list = 2,
      table_stack = [[255, 0], [255, 1], [7, 7]],
      register_count = [1, 1, 9],
      table_depth = 1\<rparr>"

definition frame_removed :: cfa_stack where
  "frame_removed =
     \<lparr>entries = [\<lparr>e_regnum = 1, e_rule = 5, e_value = 6, e_next = 255\<rparr>,
                 \<lparr>e_regnum = 1, e_rule = 7, e_value = 8, e_next = 2\<rparr>,
                 \<lparr>e_regnum = 0, e_rule = 0, e_value = 0, e_next = 3\<rparr>,
                 \<lparr>e_regnum = 0, e_rule = 0, e_value = 0, e_next = 255\<rparr>],
      free_list = 1,
      table_stack = [[255, 0], [255, 255], [7, 7]],
      register_count = [1, 0, 9],
      table_depth = 1\<rparr>"

definition frame_popped :: cfa_stack where
  "frame_popped =
     \<lparr>entries = [\<lparr>e_regnum = 1, e_rule = 5, e_value = 6, e_next = 255\<rparr>,
                 \<lparr>e_regnum = 1, e_rule = 7, e_value = 8, e_next = 2\<rparr>,
                 \<lparr>e_regnum = 0, e_rule = 0, e_value = 0, e_next = 3\<rparr>,
                 \<lparr>e_regnum = 0, e_rule = 0, e_value = 0, e_next = 255\<rparr>],
      free_list = 1,
      table_stack = [[255, 0], [255, 255], [7, 7]],
      register_count = [1, 0, 9],
      table_depth = 0\<rparr>"

section \<open>Shape, depth and index bounds\<close>

lemma list_all_update:
  "list_all P xs \<Longrightarrow> P x \<Longrightarrow> list_all P (xs[i := x])"
  unfolding list_all_length
proof (intro allI impI)
  fix n assume h: "\<forall>n<length xs. P (xs ! n)" "P x" "n < length (xs[i := x])"
  show "P (xs[i := x] ! n)"
    using h by (cases "n = i") simp_all
qed

lemma list_all_take_update:
  "list_all P (take n xs) \<Longrightarrow> (i < n \<Longrightarrow> P x) \<Longrightarrow> list_all P (take n (xs[i := x]))"
  unfolding list_all_length
proof (intro allI impI)
  fix k assume h: "\<forall>k<length (take n xs). P (take n xs ! k)" "i < n \<Longrightarrow> P x"
     "k < length (take n (xs[i := x]))"
  show "P (take n (xs[i := x]) ! k)"
    using h by (cases "k = i") simp_all
qed

lemma list_all_nth: "list_all P xs \<Longrightarrow> i < length xs \<Longrightarrow> P (xs ! i)"
  by (simp add: list_all_length)

lemma length_ctor_fold:
  "length (fold (\<lambda>i es. es[i := f i es]) ns es) = length es"
  by (induction ns arbitrary: es) auto

lemma nth_ctor_fold:
  "n \<le> length es \<Longrightarrow> i < length es \<Longrightarrow>
   fold (\<lambda>i es. es[i := (es ! i)\<lparr>e_next := g i\<rparr>]) [0..<n] es ! i =
     (if i < n then (es ! i)\<lparr>e_next := g i\<rparr> else es ! i)"
proof (induction n)
  case 0
  then show ?case by simp
next
  case (Suc n)
  then show ?case
    by (auto simp: length_ctor_fold nth_list_update less_Suc_eq)
qed

lemma basic_inv_init:
  assumes "config_ok cfg" "well_shaped cfg mem"
  shows "basic_inv cfg (dwarf_cfa_stack cfg mem)"
proof -
  let ?n = "DWARF_CFA_STACK_MAX_REGISTERS cfg"
  let ?es1 = "fold (\<lambda>i es. es[i := (es ! i)\<lparr>e_next := (i + 1) mod 256\<rparr>]) [0..<?n] (entries mem)"
  have len: "length (entries mem) = ?n" using assms by (simp add: well_shaped_def)
  have n: "0 < ?n" "?n < 255" using assms(1) by (auto simp: config_ok_def)
  have "valid_idx cfg (e_next (?es1[?n - 1 := (?es1 ! (?n - 1))\<lparr>e_next := DWARF_CFA_STACK_INVALID_ENTRY_IDX cfg\<rparr>] ! i))"
    if "i < ?n" for i
  proof (cases "i = ?n - 1")
    case True
    then show ?thesis using that by (simp add: length_ctor_fold len valid_idx_def)
  next
    case False
    then have "i + 1 < ?n" using that by arith
    then show ?thesis using that n False
      by (simp add: nth_ctor_fold len valid_idx_def)
  qed
  then have "list_all (\<lambda>e. valid_idx cfg (e_next e))
     (?es1[?n - 1 := (?es1 ! (?n - 1))\<lparr>e_next := DWARF_CFA_STACK_INVALID_ENTRY_IDX cfg\<rparr>])"
    by (simp add: list_all_length length_ctor_fold len)
  moreover have "0 < length (table_stack mem)" using assms by (simp add: well_shaped_def config_ok_def)
  moreover have "valid_idx cfg 0" using n by (simp add: valid_idx_def)
  moreover have "list_all (valid_idx cfg) (replicate k (DWARF_CFA_STACK_INVALID_ENTRY_IDX cfg))" for k
    by (simp add: list_all_length valid_idx_def)
  ultimately have "links_ok cfg (dwarf_cfa_stack cfg mem)"
    by (simp add: links_ok_def dwarf_cfa_stack_def Let_def take_Suc_conv_app_nth)
  moreover have "well_shaped cfg (dwarf_cfa_stack cfg mem)"
    using assms(2)
    by (simp add: well_shaped_def dwarf_cfa_stack_def Let_def length_ctor_fold list_all_update)
  moreover have "table_depth (dwarf_cfa_stack cfg mem) < DWARF_CFA_STACK_MAX_STATES cfg"
    using assms(1) by (simp add: dwarf_cfa_stack_def Let_def config_ok_def)
  ultimately show ?thesis using assms(1) by (simp add: basic_inv_def)
qed


lemma valid_idx_bound:
  "well_shaped cfg s \<Longrightarrow> config_ok cfg \<Longrightarrow> valid_idx cfg i \<Longrightarrow>
   i \<noteq> DWARF_CFA_STACK_INVALID_ENTRY_IDX cfg \<Longrightarrow> i < length (entries s)"
  by (auto simp: valid_idx_def well_shaped_def)

lemma valid_idx_inv [simp]: "valid_idx cfg (DWARF_CFA_STACK_INVALID_ENTRY_IDX cfg)"
  by (simp add: valid_idx_def)

lemma links_next:
  "links_ok cfg s \<Longrightarrow> i < length (entries s) \<Longrightarrow> valid_idx cfg (e_next (entries s ! i))"
  by (simp add: links_ok_def list_all_length)

lemma links_head:
  "links_ok cfg s \<Longrightarrow> table_depth s < length (table_stack s) \<Longrightarrow>
   b < length (table_stack s ! table_depth s) \<Longrightarrow>
   valid_idx cfg (table_stack s ! table_depth s ! b)"
  by (simp add: links_ok_def list_all_length)

lemma basic_inv_push:
  assumes "basic_inv cfg s" "push_state cfg s = Inr (b, s')"
  shows "basic_inv cfg s'"
proof (cases "table_depth s + 1 = DWARF_CFA_STACK_MAX_STATES cfg")
  case True
  then show ?thesis using assms by (simp add: push_state_def)
next
  case False
  let ?d = "table_depth s + 1"
  let ?row = "replicate (DWARF_CFA_STACK_BUCKET_COUNT cfg) (DWARF_CFA_STACK_INVALID_ENTRY_IDX cfg)"
  have d: "?d < DWARF_CFA_STACK_MAX_STATES cfg" using assms(1) False by (simp add: basic_inv_def)
  have sh: "well_shaped cfg s" and lk: "links_ok cfg s" and ck: "config_ok cfg"
    using assms(1) by (simp_all add: basic_inv_def)
  have s': "s' = s\<lparr>table_depth := ?d, register_count := (register_count s)[?d := 0],
                   table_stack := (table_stack s)[?d := ?row]\<rparr>"
    using assms(2) False d sh by (simp add: push_state_def Let_def well_shaped_def)
  have row: "list_all (valid_idx cfg) ?row" by (simp add: list_all_length)
  have "take (?d + 1) ((table_stack s)[?d := ?row]) = take ?d (table_stack s) @ [?row]"
    using d sh by (simp add: well_shaped_def take_Suc_conv_app_nth)
  then have "links_ok cfg s'"
    using lk row by (simp add: s' links_ok_def)
  moreover have "well_shaped cfg s'"
    using sh by (simp add: s' well_shaped_def list_all_update)
  ultimately show ?thesis using d ck by (simp add: basic_inv_def s')
qed

lemma basic_inv_pop:
  assumes "basic_inv cfg s" "pop_state cfg s = Inr (b, s')"
  shows "basic_inv cfg s'"
proof (cases "table_depth s = 0")
  case True
  then show ?thesis using assms by (simp add: pop_state_def)
next
  case False
  then have s': "s' = s\<lparr>table_depth := table_depth s - 1\<rparr>"
    using assms(2) by (simp add: pop_state_def)
  have "take (table_depth s - 1 + 1) (table_stack s) = take (table_depth s - 1 + 1) (take (table_depth s + 1) (table_stack s))"
    by (simp add: min_def)
  then have "list_all (list_all (valid_idx cfg)) (take (table_depth s - 1 + 1) (table_stack s))"
    using assms(1) by (metis basic_inv_def links_ok_def list_all_length length_take nth_take min_less_iff_conj)
  moreover have "table_depth s - 1 < DWARF_CFA_STACK_MAX_STATES cfg"
    using assms(1) by (simp add: basic_inv_def less_imp_diff_less)
  ultimately show ?thesis using assms(1) False
    by (simp add: basic_inv_def s' links_ok_def well_shaped_def)
qed

lemma basic_inv_set:
  assumes "basic_inv cfg s" "set_register cfg s regnum rule v = Some (Inr (b, s'))"
  shows "basic_inv cfg s' \<and> table_depth s' = table_depth s"
proof -
  let ?bk = "unat regnum mod DWARF_CFA_STACK_BUCKET_COUNT cfg"
  let ?d = "table_depth s"
  have sh: "well_shaped cfg s" and lk: "links_ok cfg s" and ck: "config_ok cfg"
    and d: "?d < DWARF_CFA_STACK_MAX_STATES cfg"
    using assms(1) by (simp_all add: basic_inv_def)
  have bk: "?bk < DWARF_CFA_STACK_BUCKET_COUNT cfg" using ck by (simp add: config_ok_def)
  have guard: "?d < length (table_stack s) \<and> ?bk < length (table_stack s ! ?d) \<and> ?d < length (register_count s)"
    using sh d bk by (simp add: well_shaped_def list_all_length)
  obtain res where res: "set_register_loop cfg (entries s) regnum None (table_stack s ! ?d ! ?bk) = Some (Inr res)"
    using assms(2) guard by (auto simp: set_register_def Let_def split: option.splits sum.splits)
  show ?thesis
  proof (cases res)
    case (Existing p)
    then have s': "s' = s\<lparr>entries := (entries s)[p := (entries s ! p)\<lparr>e_rule := rule, e_value := v\<rparr>]\<rparr>"
      using assms(2) guard res by (simp add: set_register_def Let_def)
    have "list_all (\<lambda>e. valid_idx cfg (e_next e)) ((entries s)[p := (entries s ! p)\<lparr>e_rule := rule, e_value := v\<rparr>])"
    proof (cases "p < length (entries s)")
      case True
      then show ?thesis using lk by (intro list_all_update) (simp_all add: links_ok_def list_all_length)
    next
      case False
      then show ?thesis using lk by (simp add: links_ok_def list_update_beyond not_less)
    qed
    then show ?thesis using assms(1)
      by (simp add: s' basic_inv_def links_ok_def well_shaped_def)
  next
    case (Parent parent)
    show ?thesis
    proof (cases "free_list s = DWARF_CFA_STACK_INVALID_ENTRY_IDX cfg")
      case True
      then show ?thesis using assms guard res Parent by (simp add: set_register_def Let_def)
    next
      case False
      let ?f = "free_list s"
      have f: "?f < length (entries s)" "?f < DWARF_CFA_STACK_MAX_REGISTERS cfg"
        using lk False sh by (auto simp: links_ok_def valid_idx_def well_shaped_def)
      let ?new = "\<lparr>e_regnum = regnum, e_rule = rule, e_value = v,
                            e_next = DWARF_CFA_STACK_INVALID_ENTRY_IDX cfg\<rparr>"
      let ?es2 = "(entries s)[?f := ?new]"
      have es2: "list_all (\<lambda>e. valid_idx cfg (e_next e)) ?es2"
        using lk by (intro list_all_update) (simp_all add: links_ok_def)
      have vf: "valid_idx cfg ?f" using f by (simp add: valid_idx_def)
      have fl': "valid_idx cfg (e_next (entries s ! ?f))" using lk f by (simp add: links_next)
      show ?thesis
      proof (cases parent)
        case None
        then have s': "s' = s\<lparr>free_list := e_next (entries s ! ?f), entries := ?es2,
            table_stack := (table_stack s)[?d := (table_stack s ! ?d)[?bk := ?f]],
            register_count := (register_count s)[?d := (register_count s ! ?d + 1) mod 256]\<rparr>"
          using assms(2) guard res Parent False f
          by (simp add: set_register_def set_register_insert_def Let_def)
        have "list_all (valid_idx cfg) ((table_stack s ! ?d)[?bk := ?f])"
          using lk guard vf by (intro list_all_update) (simp_all add: links_ok_def list_all_length)
        then have "list_all (list_all (valid_idx cfg)) (take (?d + 1) ((table_stack s)[?d := (table_stack s ! ?d)[?bk := ?f]]))"
          using lk by (intro list_all_take_update) (simp_all add: links_ok_def)
        moreover have "length (table_stack s ! ?d) = DWARF_CFA_STACK_BUCKET_COUNT cfg"
          using sh guard by (simp add: well_shaped_def list_all_length)
        then have "well_shaped cfg s'"
          using sh by (simp add: s' well_shaped_def list_all_update)
        ultimately show ?thesis using es2 fl' ck d
          by (simp add: s' basic_inv_def links_ok_def)
      next
        case (Some p)
        then have s': "s' = s\<lparr>free_list := e_next (entries s ! ?f),
            entries := ?es2[p := (?es2 ! p)\<lparr>e_next := ?f\<rparr>],
            register_count := (register_count s)[?d := (register_count s ! ?d + 1) mod 256]\<rparr>"
          using assms(2) guard res Parent False f
          by (simp add: set_register_def set_register_insert_def Let_def)
        have "list_all (\<lambda>e. valid_idx cfg (e_next e)) (?es2[p := (?es2 ! p)\<lparr>e_next := ?f\<rparr>])"
          by (rule list_all_update[OF es2]) (simp add: vf)
        moreover have "well_shaped cfg s'"
          using sh by (simp add: s' well_shaped_def)
        ultimately show ?thesis using fl' ck d lk
          by (simp add: s' basic_inv_def links_ok_def)
      qed
    qed
  qed
qed


lemma unlink_basic:
  assumes "basic_inv cfg s" "bk < DWARF_CFA_STACK_BUCKET_COUNT cfg" "ei < length (entries s)"
  shows "basic_inv cfg (remove_register_unlink bk prev ei s)"
    and "table_depth (remove_register_unlink bk prev ei s) = table_depth s"
    and "e_next (entries (remove_register_unlink bk prev ei s) ! ei) = free_list s"
proof -
  let ?d = "table_depth s"
  let ?n = "e_next (entries s ! ei)"
  have sh: "well_shaped cfg s" and lk: "links_ok cfg s" and ck: "config_ok cfg"
    and d: "?d < DWARF_CFA_STACK_MAX_STATES cfg"
    using assms(1) by (simp_all add: basic_inv_def)
  have vn: "valid_idx cfg ?n" using lk assms(3) by (rule links_next)
  have vei: "valid_idx cfg ei" using assms(3) sh by (simp add: valid_idx_def well_shaped_def)
  have vf: "valid_idx cfg (free_list s)" using lk by (simp add: links_ok_def)
  have es: "list_all (\<lambda>e. valid_idx cfg (e_next e)) (entries s)" using lk by (simp add: links_ok_def)
  have rowlen: "length (table_stack s ! ?d) = DWARF_CFA_STACK_BUCKET_COUNT cfg"
    using sh d by (simp add: well_shaped_def list_all_length)
  show "table_depth (remove_register_unlink bk prev ei s) = table_depth s"
    by (cases prev) (simp_all add: remove_register_unlink_def Let_def)
  show "e_next (entries (remove_register_unlink bk prev ei s) ! ei) = free_list s"
    using assms(3) by (cases prev) (simp_all add: remove_register_unlink_def Let_def)
  show "basic_inv cfg (remove_register_unlink bk prev ei s)"
  proof (cases prev)
    case None
    let ?tb = "(table_stack s)[?d := (table_stack s ! ?d)[bk := ?n]]"
    let ?es = "(entries s)[ei := (entries s ! ei)\<lparr>e_next := free_list s\<rparr>]"
    have eq: "remove_register_unlink bk prev ei s =
        s\<lparr>table_stack := ?tb, entries := ?es, free_list := ei,
          register_count := (register_count s)[?d := (register_count s ! ?d + 255) mod 256]\<rparr>"
      using None by (simp add: remove_register_unlink_def Let_def)
    have "list_all (valid_idx cfg) ((table_stack s ! ?d)[bk := ?n])"
      using lk d sh vn by (intro list_all_update) (simp_all add: links_ok_def list_all_length well_shaped_def)
    then have t: "list_all (list_all (valid_idx cfg)) (take (?d + 1) ?tb)"
      using lk by (intro list_all_take_update) (simp_all add: links_ok_def)
    have e: "list_all (\<lambda>e. valid_idx cfg (e_next e)) ?es"
      by (rule list_all_update[OF es]) (simp add: vf)
    have "well_shaped cfg (remove_register_unlink bk prev ei s)"
      using sh rowlen by (simp add: eq well_shaped_def list_all_update)
    then show ?thesis using t e vei ck d by (simp add: eq basic_inv_def links_ok_def)
  next
    case (Some p)
    let ?es1 = "(entries s)[p := (entries s ! p)\<lparr>e_next := ?n\<rparr>]"
    let ?es = "?es1[ei := (?es1 ! ei)\<lparr>e_next := free_list s\<rparr>]"
    have eq: "remove_register_unlink bk prev ei s =
        s\<lparr>entries := ?es, free_list := ei,
          register_count := (register_count s)[?d := (register_count s ! ?d + 255) mod 256]\<rparr>"
      using Some by (simp add: remove_register_unlink_def Let_def)
    have e1: "list_all (\<lambda>e. valid_idx cfg (e_next e)) ?es1"
      by (rule list_all_update[OF es]) (simp add: vn)
    have e: "list_all (\<lambda>e. valid_idx cfg (e_next e)) ?es"
      by (rule list_all_update[OF e1]) (simp add: vf)
    have "well_shaped cfg (remove_register_unlink bk prev ei s)"
      using sh by (simp add: eq well_shaped_def)
    then show ?thesis using e vei ck d lk by (simp add: eq basic_inv_def links_ok_def)
  qed
qed

lemma remove_loop_basic:
  "remove_register_loop cfg r bk en ei s = Some res \<Longrightarrow>
   basic_inv cfg s \<Longrightarrow> bk < DWARF_CFA_STACK_BUCKET_COUNT cfg \<Longrightarrow> valid_idx cfg ei \<Longrightarrow>
     (\<exists>s'. res = Inr s' \<and> basic_inv cfg s' \<and> table_depth s' = table_depth s)"
proof (induction cfg r bk en ei s res rule: remove_register_loop.raw_induct[rotated 1, consumes 1])
  case (1 loop cfg r bk en ei s res)
  note IH = "1.IH" and eq = "1.hyps"
  note inv = "1.prems"(1) and bk = "1.prems"(2) and v = "1.prems"(3)
  have sh: "well_shaped cfg s" and lk: "links_ok cfg s" and ck: "config_ok cfg"
    using inv by (simp_all add: basic_inv_def)
  show ?case
  proof (cases "ei = DWARF_CFA_STACK_INVALID_ENTRY_IDX cfg")
    case True
    then show ?thesis using eq inv by auto
  next
    case False
    then have ei: "ei < length (entries s)" using valid_idx_bound[OF sh ck v] by simp
    show ?thesis
    proof (cases "e_regnum (entries s ! ei) = r")
      case False
      then have "loop cfg r bk (Some ei) (e_next (entries s ! ei)) s = Some res"
        using eq ei \<open>ei \<noteq> _\<close> by simp
      then show ?thesis using IH inv bk links_next[OF lk ei] by blast
    next
      case True
      let ?s = "remove_register_unlink bk en ei s"
      have "loop cfg r bk (Some ei) (free_list s) ?s = Some res"
        using eq ei \<open>ei \<noteq> _\<close> True unlink_basic(3)[OF inv bk ei] by (simp add: Let_def)
      moreover have "valid_idx cfg (free_list s)" using lk by (simp add: links_ok_def)
      ultimately have "\<exists>s'. res = Inr s' \<and> basic_inv cfg s' \<and> table_depth s' = table_depth ?s"
        using IH unlink_basic(1)[OF inv bk ei] bk by blast
      then show ?thesis using unlink_basic(2)[OF inv bk ei] by simp
    qed
  qed
qed

lemma basic_inv_remove:
  assumes "basic_inv cfg s" "remove_register cfg s regnum = Some res"
  shows "\<exists>s'. res = Inr s' \<and> basic_inv cfg s' \<and> table_depth s' = table_depth s"
proof -
  let ?bk = "unat regnum mod DWARF_CFA_STACK_BUCKET_COUNT cfg"
  let ?d = "table_depth s"
  have sh: "well_shaped cfg s" and lk: "links_ok cfg s" and ck: "config_ok cfg"
    and d: "?d < DWARF_CFA_STACK_MAX_STATES cfg"
    using assms(1) by (simp_all add: basic_inv_def)
  have bk: "?bk < DWARF_CFA_STACK_BUCKET_COUNT cfg" using ck by (simp add: config_ok_def)
  have guard: "?d < length (table_stack s) \<and> ?bk < length (table_stack s ! ?d) \<and> ?d < length (register_count s)"
    using sh d bk by (simp add: well_shaped_def list_all_length)
  then have "remove_register_loop cfg regnum ?bk None (table_stack s ! ?d ! ?bk) s = Some res"
    using assms(2) by (simp add: remove_register_def Let_def)
  moreover have "valid_idx cfg (table_stack s ! ?d ! ?bk)"
    using lk guard by (simp add: links_head)
  ultimately show ?thesis using remove_loop_basic assms(1) bk by blast
qed

lemma basic_inv_step: "step cfg s s' \<Longrightarrow> basic_inv cfg s \<Longrightarrow> basic_inv cfg s'"
proof (induction rule: step.induct)
  case (push s b s')
  then show ?case using basic_inv_push by blast
next
  case (pop s b s')
  then show ?case using basic_inv_pop by blast
next
  case (set s regnum rule v b s')
  then show ?case using basic_inv_set by blast
next
  case (remove s regnum s')
  then show ?case using basic_inv_remove by blast
qed

lemma reachable_basic_inv: "reachable cfg s \<Longrightarrow> basic_inv cfg s"
  by (induction rule: reachable.induct) (auto intro: basic_inv_init basic_inv_step)

lemma reachable_fresh_small: "reachable cfg_small fresh_small"
proof -
  have "config_ok cfg_small" by code_simp
  moreover have "well_shaped cfg_small raw_mem" by code_simp
  ultimately show ?thesis unfolding fresh_small_def by (rule reachable.init)
qed

section \<open>The depth state machine\<close>

text \<open>
  Claim C7. In every reachable state the depth is below \<open>DWARF_CFA_STACK_MAX_STATES\<close>.
  \<open>push_state\<close> never faults; it returns false exactly when the depth is already the
  maximum, and then changes nothing; otherwise it increments the depth, and the new level
  has register count zero and every bucket head equal to the sentinel. \<open>pop_state\<close>
  returns false exactly when the depth is zero, and then changes nothing; otherwise it
  decrements the depth and touches nothing else.
\<close>

theorem depth_state_machine:
  assumes "reachable cfg s"
  shows "table_depth s < DWARF_CFA_STACK_MAX_STATES cfg \<and>
    (case push_state cfg s of
       Inl f \<Rightarrow> False
     | Inr (ok, s') \<Rightarrow>
         (ok \<longleftrightarrow> table_depth s + 1 \<noteq> DWARF_CFA_STACK_MAX_STATES cfg) \<and>
         (if ok then table_depth s' = table_depth s + 1 \<and>
                     get_register_count s' = Inr 0 \<and>
                     table_stack s' ! table_depth s' =
                       replicate (DWARF_CFA_STACK_BUCKET_COUNT cfg) (DWARF_CFA_STACK_INVALID_ENTRY_IDX cfg)
          else s' = s)) \<and>
    (case pop_state cfg s of
       Inl f \<Rightarrow> False
     | Inr (ok, s') \<Rightarrow>
         (ok \<longleftrightarrow> table_depth s \<noteq> 0) \<and>
         (if ok then s' = s\<lparr>table_depth := table_depth s - 1\<rparr> else s' = s))"
proof -
  have inv: "basic_inv cfg s" using assms by (rule reachable_basic_inv)
  then have d: "table_depth s < DWARF_CFA_STACK_MAX_STATES cfg"
    and sh: "well_shaped cfg s" by (simp_all add: basic_inv_def)
  have "case push_state cfg s of
       Inl f \<Rightarrow> False
     | Inr (ok, s') \<Rightarrow>
         (ok \<longleftrightarrow> table_depth s + 1 \<noteq> DWARF_CFA_STACK_MAX_STATES cfg) \<and>
         (if ok then table_depth s' = table_depth s + 1 \<and>
                     get_register_count s' = Inr 0 \<and>
                     table_stack s' ! table_depth s' =
                       replicate (DWARF_CFA_STACK_BUCKET_COUNT cfg) (DWARF_CFA_STACK_INVALID_ENTRY_IDX cfg)
          else s' = s)"
    using d sh by (simp add: push_state_def Let_def well_shaped_def get_register_count_def)
  moreover have "case pop_state cfg s of
       Inl f \<Rightarrow> False
     | Inr (ok, s') \<Rightarrow>
         (ok \<longleftrightarrow> table_depth s \<noteq> 0) \<and>
         (if ok then s' = s\<lparr>table_depth := table_depth s - 1\<rparr> else s' = s)"
    by (simp add: pop_state_def)
  ultimately show ?thesis using d by simp
qed

theorem depth_state_machine_witness:
  "reachable cfg_small fresh_small \<and>
   table_depth fresh_small < DWARF_CFA_STACK_MAX_STATES cfg_small \<and>
   (case push_state cfg_small fresh_small of
       Inl f \<Rightarrow> False
     | Inr (ok, s') \<Rightarrow>
         (ok \<longleftrightarrow> table_depth fresh_small + 1 \<noteq> DWARF_CFA_STACK_MAX_STATES cfg_small) \<and>
         (if ok then table_depth s' = table_depth fresh_small + 1 \<and>
                     get_register_count s' = Inr 0 \<and>
                     table_stack s' ! table_depth s' =
                       replicate (DWARF_CFA_STACK_BUCKET_COUNT cfg_small)
                         (DWARF_CFA_STACK_INVALID_ENTRY_IDX cfg_small)
          else s' = fresh_small)) \<and>
    (case pop_state cfg_small fresh_small of
       Inl f \<Rightarrow> False
     | Inr (ok, s') \<Rightarrow>
         (ok \<longleftrightarrow> table_depth fresh_small \<noteq> 0) \<and>
         (if ok then s' = fresh_small\<lparr>table_depth := table_depth fresh_small - 1\<rparr>
          else s' = fresh_small))"
  using reachable_fresh_small depth_state_machine[OF reachable_fresh_small] by simp

section \<open>The loop of \<open>remove_register\<close> does not stop after a removal\<close>

lemma unlink_fields:
  "length (entries (remove_register_unlink bk prev ei s)) = length (entries s)"
  "free_list (remove_register_unlink bk prev ei s) = ei"
  "table_depth (remove_register_unlink bk prev ei s) = table_depth s"
  by (cases prev; simp add: remove_register_unlink_def Let_def)+

lemma unlink_next_self:
  "ei < length (entries s) \<Longrightarrow>
   e_next (entries (remove_register_unlink bk prev ei s) ! ei) = free_list s"
  by (cases prev) (simp_all add: remove_register_unlink_def Let_def)

lemma nth_update_same_field:
  "f y = f (xs ! k) \<Longrightarrow> f (xs[k := y] ! i) = f (xs ! i)"
proof (cases "k = i \<and> k < length xs")
  case True
  then show "f y = f (xs ! k) \<Longrightarrow> ?thesis" by simp
next
  case False
  then show ?thesis by (cases "k = i") (simp_all add: list_update_beyond not_less)
qed

lemma unlink_regnum_nth:
  "e_regnum (entries (remove_register_unlink bk prev ei s) ! i) = e_regnum (entries s ! i)"
proof (cases prev)
  case None
  then show ?thesis
    by (simp add: remove_register_unlink_def Let_def nth_update_same_field)
next
  case (Some p)
  let ?es1 = "(entries s)[p := (entries s ! p)\<lparr>e_next := e_next (entries s ! ei)\<rparr>]"
  have "e_regnum (?es1[ei := (?es1 ! ei)\<lparr>e_next := free_list s\<rparr>] ! i) = e_regnum (?es1 ! i)"
    by (rule nth_update_same_field) simp
  also have "\<dots> = e_regnum (entries s ! i)"
    by (rule nth_update_same_field) simp
  finally show ?thesis using Some
    by (simp add: remove_register_unlink_def Let_def)
qed

lemma spinning_step:
  assumes "spinning cfg r a b s"
  shows "spinning cfg r b a (remove_register_unlink bk (Some a) b s)"
  using assms unfolding spinning_def
  by (simp add: unlink_fields unlink_regnum_nth)

lemma remove_loop_spinning:
  "remove_register_loop cfg r bk en ei s = Some res \<Longrightarrow> en = Some a \<Longrightarrow> spinning cfg r a ei s \<Longrightarrow> False"
proof (induction cfg r bk en ei s res arbitrary: a rule: remove_register_loop.raw_induct[rotated 1, consumes 1])
  case (1 loop cfg r bk en ei s res)
  note sp = "1.prems"(2)
  let ?s = "remove_register_unlink bk (Some a) ei s"
  have ei: "ei < length (entries s)" "ei \<noteq> DWARF_CFA_STACK_INVALID_ENTRY_IDX cfg"
    "e_regnum (entries s ! ei) = r" "free_list s = a"
    using sp by (simp_all add: spinning_def)
  have "loop cfg r bk (Some ei) a ?s = Some res"
    using "1.hyps" "1.prems"(1) ei unlink_next_self[OF ei(1), of bk "Some a"] by (simp add: Let_def)
  then show ?case using "1.IH" spinning_step[OF sp] by blast
qed

lemma spinning_diverges:
  "spinning cfg r a b s \<Longrightarrow> remove_register_loop cfg r bk (Some a) b s = None"
  using remove_loop_spinning by (cases "remove_register_loop cfg r bk (Some a) b s") blast+

lemma reachable_after_two_removals: "reachable cfg_small after_two_removals"
proof -
  have 1: "set_register cfg_small fresh_small 1 0 0 = Some (Inr (True,
     \<lparr>entries = [\<lparr>e_regnum = 1, e_rule = 0, e_value = 0, e_next = 255\<rparr>,
                 \<lparr>e_regnum = 0, e_rule = 0, e_value = 0, e_next = 2\<rparr>,
                 \<lparr>e_regnum = 0, e_rule = 0, e_value = 0, e_next = 3\<rparr>,
                 \<lparr>e_regnum = 0, e_rule = 0, e_value = 0, e_next = 255\<rparr>],
      free_list = 1, table_stack = [[255, 0], [7, 7], [7, 7]],
      register_count = [1, 9, 9], table_depth = 0\<rparr>))" (is "_ = Some (Inr (True, ?s1))")
    by code_simp
  have 2: "set_register cfg_small ?s1 2 0 0 = Some (Inr (True,
     \<lparr>entries = [\<lparr>e_regnum = 1, e_rule = 0, e_value = 0, e_next = 255\<rparr>,
                 \<lparr>e_regnum = 2, e_rule = 0, e_value = 0, e_next = 255\<rparr>,
                 \<lparr>e_regnum = 0, e_rule = 0, e_value = 0, e_next = 3\<rparr>,
                 \<lparr>e_regnum = 0, e_rule = 0, e_value = 0, e_next = 255\<rparr>],
      free_list = 2, table_stack = [[1, 0], [7, 7], [7, 7]],
      register_count = [2, 9, 9], table_depth = 0\<rparr>))" (is "_ = Some (Inr (True, ?s2))")
    by code_simp
  have 3: "remove_register cfg_small ?s2 1 = Some (Inr
     \<lparr>entries = [\<lparr>e_regnum = 1, e_rule = 0, e_value = 0, e_next = 2\<rparr>,
                 \<lparr>e_regnum = 2, e_rule = 0, e_value = 0, e_next = 255\<rparr>,
                 \<lparr>e_regnum = 0, e_rule = 0, e_value = 0, e_next = 3\<rparr>,
                 \<lparr>e_regnum = 0, e_rule = 0, e_value = 0, e_next = 255\<rparr>],
      free_list = 0, table_stack = [[1, 255], [7, 7], [7, 7]],
      register_count = [1, 9, 9], table_depth = 0\<rparr>)" (is "_ = Some (Inr ?s3)")
    by code_simp
  have 4: "remove_register cfg_small ?s3 2 = Some (Inr after_two_removals)"
    by code_simp
  show ?thesis
    using reachable_fresh_small step.set[OF 1] step.set[OF 2] step.remove[OF 3] step.remove[OF 4]
    by (meson reachable.step)
qed

lemma set_after_two_removals:
  "set_register cfg_small after_two_removals 1 0 0 = Some (Inr (True, stale_in_free_list))"
  by code_simp

lemma reachable_stale_in_free_list: "reachable cfg_small stale_in_free_list"
  using reachable_after_two_removals step.set[OF set_after_two_removals] by (rule reachable.step)

lemma remove_stale_diverges:
  "remove_register cfg_small stale_in_free_list 1 = None"
proof -
  let ?s = "remove_register_unlink 1 None 1 stale_in_free_list"
  have "remove_register cfg_small stale_in_free_list 1 =
        remove_register_loop cfg_small 1 1 (Some 1) 0 ?s"
    by (simp add: remove_register_def remove_register_loop.simps[of _ _ _ None] Let_def
        stale_in_free_list_def cfg_small_def remove_register_unlink_def)
  moreover have "spinning cfg_small 1 1 0 ?s"
    by (simp add: spinning_def stale_in_free_list_def cfg_small_def remove_register_unlink_def Let_def)
  ultimately show ?thesis by (simp add: spinning_diverges)
qed

text \<open>
  Claim C9 (termination of every operation), evaluated where it fails. The state
  \<open>stale_in_free_list\<close> is reached through the public operations, and there
  \<open>remove_register(1)\<close> does not return: after the removal the loop walks on into the free
  list, finds the entry that held register 1 before, and from then on moves the two
  entries in front of each other for ever.
\<close>

theorem remove_register_runs_forever:
  "reachable cfg_small stale_in_free_list \<and>
   remove_register cfg_small stale_in_free_list 1 = None"
  using reachable_stale_in_free_list remove_stale_diverges by simp

text \<open>
  Claim C2 (removal correctness), evaluated where it fails. In the reachable state
  \<open>after_two_removals\<close> the call \<open>set_register(1, 0, 0)\<close> succeeds, and the
  \<open>remove_register(1)\<close> that follows does not return, so there is no state in which the
  lookup could fail and the count could be one less.
\<close>

theorem set_then_remove_runs_forever:
  "reachable cfg_small after_two_removals \<and>
   set_register cfg_small after_two_removals 1 0 0 = Some (Inr (True, stale_in_free_list)) \<and>
   remove_register cfg_small stale_in_free_list 1 = None"
  using reachable_after_two_removals set_after_two_removals remove_stale_diverges by simp

section \<open>Index safety\<close>

lemma set_loop_no_fault:
  "set_register_loop cfg es r parent idx = Some res \<Longrightarrow>
   list_all (\<lambda>e. valid_idx cfg (e_next e)) es \<Longrightarrow>
   length es = DWARF_CFA_STACK_MAX_REGISTERS cfg \<Longrightarrow> valid_idx cfg idx \<Longrightarrow>
   (\<exists>x. res = Inr x)"
proof (induction cfg es r parent idx res rule: set_register_loop.raw_induct[rotated 1, consumes 1])
  case (1 loop cfg es r parent idx res)
  show ?case
  proof (cases "idx = DWARF_CFA_STACK_INVALID_ENTRY_IDX cfg")
    case True
    then show ?thesis using "1.hyps" by auto
  next
    case False
    then have i: "idx < length es" using "1.prems" by (simp add: valid_idx_def)
    then have "valid_idx cfg (e_next (es ! idx))" using "1.prems"(1) by (simp add: list_all_length)
    then show ?thesis using "1.hyps" "1.IH" "1.prems" False i
      by (auto split: if_splits)
  qed
qed

lemma get_loop_no_fault:
  "get_register_rule_loop cfg es r idx = Some res \<Longrightarrow>
   list_all (\<lambda>e. valid_idx cfg (e_next e)) es \<Longrightarrow>
   length es = DWARF_CFA_STACK_MAX_REGISTERS cfg \<Longrightarrow> valid_idx cfg idx \<Longrightarrow>
   (\<exists>x. res = Inr x)"
proof (induction cfg es r idx res rule: get_register_rule_loop.raw_induct[rotated 1, consumes 1])
  case (1 loop cfg es r idx res)
  show ?case
  proof (cases "idx = DWARF_CFA_STACK_INVALID_ENTRY_IDX cfg")
    case True
    then show ?thesis using "1.hyps" by auto
  next
    case False
    then have i: "idx < length es" using "1.prems" by (simp add: valid_idx_def)
    then have "valid_idx cfg (e_next (es ! idx))" using "1.prems"(1) by (simp add: list_all_length)
    then show ?thesis using "1.hyps" "1.IH" "1.prems" False i
      by (auto split: if_splits)
  qed
qed

lemma basic_inv_guard:
  assumes "basic_inv cfg s" "bk < DWARF_CFA_STACK_BUCKET_COUNT cfg"
  shows "table_depth s < length (table_stack s)"
    and "bk < length (table_stack s ! table_depth s)"
    and "table_depth s < length (register_count s)"
    and "length (table_stack s ! table_depth s) = DWARF_CFA_STACK_BUCKET_COUNT cfg"
    and "valid_idx cfg (table_stack s ! table_depth s ! bk)"
proof -
  have sh: "well_shaped cfg s" and d: "table_depth s < DWARF_CFA_STACK_MAX_STATES cfg"
    and lk: "links_ok cfg s"
    using assms(1) by (simp_all add: basic_inv_def)
  show 1: "table_depth s < length (table_stack s)" using sh d by (simp add: well_shaped_def)
  show 4: "length (table_stack s ! table_depth s) = DWARF_CFA_STACK_BUCKET_COUNT cfg"
    using sh d by (simp add: well_shaped_def list_all_length)
  then show 2: "bk < length (table_stack s ! table_depth s)" using assms(2) by simp
  show "table_depth s < length (register_count s)" using sh d by (simp add: well_shaped_def)
  show "valid_idx cfg (table_stack s ! table_depth s ! bk)" using links_head[OF lk 1 2] .
qed

lemma bucket_lt: "config_ok cfg \<Longrightarrow> unat (r::32 word) mod DWARF_CFA_STACK_BUCKET_COUNT cfg < DWARF_CFA_STACK_BUCKET_COUNT cfg"
  by (simp add: config_ok_def)

lemma set_register_no_fault:
  assumes "basic_inv cfg s"
  shows "set_register cfg s r rule v \<noteq> Some (Inl f)"
proof
  assume a: "set_register cfg s r rule v = Some (Inl f)"
  let ?bk = "unat r mod DWARF_CFA_STACK_BUCKET_COUNT cfg"
  have ck: "config_ok cfg" and sh: "well_shaped cfg s" and lk: "links_ok cfg s"
    using assms by (simp_all add: basic_inv_def)
  note g = basic_inv_guard[OF assms bucket_lt[OF ck, of r]]
  have es: "list_all (\<lambda>e. valid_idx cfg (e_next e)) (entries s)"
     "length (entries s) = DWARF_CFA_STACK_MAX_REGISTERS cfg"
    using lk sh by (simp_all add: links_ok_def well_shaped_def)
  have fl: "free_list s \<noteq> DWARF_CFA_STACK_INVALID_ENTRY_IDX cfg \<Longrightarrow> free_list s < length (entries s)"
    using lk es(2) by (auto simp: links_ok_def valid_idx_def)
  show False
  proof (cases "set_register_loop cfg (entries s) r None (table_stack s ! table_depth s ! ?bk)")
    case None
    then show ?thesis using a g by (simp add: set_register_def Let_def)
  next
    case (Some res)
    then obtain x where "res = Inr x" using set_loop_no_fault[OF Some es g(5)] by blast
    then show ?thesis using a g Some fl
      by (cases x) (auto simp: set_register_def Let_def split: if_splits)
  qed
qed

lemma get_register_rule_no_fault:
  assumes "basic_inv cfg s"
  shows "get_register_rule cfg s r \<noteq> Some (Inl f)"
proof
  assume a: "get_register_rule cfg s r = Some (Inl f)"
  let ?bk = "unat r mod DWARF_CFA_STACK_BUCKET_COUNT cfg"
  have ck: "config_ok cfg" and sh: "well_shaped cfg s" and lk: "links_ok cfg s"
    using assms by (simp_all add: basic_inv_def)
  note g = basic_inv_guard[OF assms bucket_lt[OF ck, of r]]
  have es: "list_all (\<lambda>e. valid_idx cfg (e_next e)) (entries s)"
     "length (entries s) = DWARF_CFA_STACK_MAX_REGISTERS cfg"
    using lk sh by (simp_all add: links_ok_def well_shaped_def)
  have "get_register_rule_loop cfg (entries s) r (table_stack s ! table_depth s ! ?bk) = Some (Inl f)"
    using a g by (simp add: get_register_rule_def Let_def)
  then show False using get_loop_no_fault[OF _ es g(5)] by blast
qed

lemma remove_register_no_fault:
  assumes "basic_inv cfg s"
  shows "remove_register cfg s r \<noteq> Some (Inl f)"
  using basic_inv_remove[OF assms] by blast

lemma next_bucket_ok:
  "length row = DWARF_CFA_STACK_BUCKET_COUNT cfg \<Longrightarrow> list_all (valid_idx cfg) row \<Longrightarrow>
   \<exists>b' c. iterator_next_bucket cfg row b = Inr (b', c) \<and> valid_idx cfg c"
proof (induction cfg row b rule: iterator_next_bucket.induct)
  case (1 cfg row b)
  show ?case
  proof (cases "b < DWARF_CFA_STACK_BUCKET_COUNT cfg")
    case False
    then show ?thesis by (subst iterator_next_bucket.simps) simp
  next
    case True
    show ?thesis
    proof (cases "row ! b \<noteq> DWARF_CFA_STACK_INVALID_ENTRY_IDX cfg")
      case True
      then show ?thesis using \<open>b < _\<close> "1.prems"
        by (subst iterator_next_bucket.simps) (simp add: list_all_length)
    next
      case False
      then show ?thesis using \<open>b < _\<close> "1.prems" "1.IH"
        by (subst iterator_next_bucket.simps) simp
    qed
  qed
qed

lemma iterator_next_seek:
  assumes "cur_entry_idx it = DWARF_CFA_STACK_INVALID_ENTRY_IDX cfg"
    and "table_depth s < length (table_stack s)"
    and "iterator_next_bucket cfg (table_stack s ! table_depth s) (bucket_idx it) = Inr (b', c)"
    and "c \<noteq> DWARF_CFA_STACK_INVALID_ENTRY_IDX cfg \<Longrightarrow> c < length (entries s)"
  shows "iterator_next cfg s it =
     Inr (it\<lparr>bucket_idx := b', cur_entry_idx := c\<rparr>,
          if c = DWARF_CFA_STACK_INVALID_ENTRY_IDX cfg then None else Some (entry_triple s c))"
  using assms by (simp add: iterator_next_def Let_def entry_triple_def)

lemma iterator_next_chain_end:
  assumes "cur_entry_idx it \<noteq> DWARF_CFA_STACK_INVALID_ENTRY_IDX cfg"
    and "cur_entry_idx it < length (entries s)"
    and "e_next (entries s ! cur_entry_idx it) = DWARF_CFA_STACK_INVALID_ENTRY_IDX cfg"
    and "table_depth s < length (table_stack s)"
    and "iterator_next_bucket cfg (table_stack s ! table_depth s) (bucket_idx it + 1) = Inr (b', c)"
    and "c \<noteq> DWARF_CFA_STACK_INVALID_ENTRY_IDX cfg \<Longrightarrow> c < length (entries s)"
  shows "iterator_next cfg s it =
     Inr (it\<lparr>bucket_idx := b', cur_entry_idx := c\<rparr>,
          if c = DWARF_CFA_STACK_INVALID_ENTRY_IDX cfg then None else Some (entry_triple s c))"
  using assms by (simp add: iterator_next_def Let_def entry_triple_def)

lemma iterator_next_chain_step:
  assumes "cur_entry_idx it \<noteq> DWARF_CFA_STACK_INVALID_ENTRY_IDX cfg"
    and "cur_entry_idx it < length (entries s)"
    and "e_next (entries s ! cur_entry_idx it) \<noteq> DWARF_CFA_STACK_INVALID_ENTRY_IDX cfg"
    and "e_next (entries s ! cur_entry_idx it) < length (entries s)"
  shows "iterator_next cfg s it =
     Inr (it\<lparr>cur_entry_idx := e_next (entries s ! cur_entry_idx it)\<rparr>,
          Some (entry_triple s (e_next (entries s ! cur_entry_idx it))))"
  using assms by (simp add: iterator_next_def Let_def entry_triple_def)

lemma iterator_next_ok:
  assumes "basic_inv cfg s" "valid_idx cfg (cur_entry_idx it)"
  shows "\<exists>it' out. iterator_next cfg s it = Inr (it', out) \<and> valid_idx cfg (cur_entry_idx it')"
proof -
  let ?inv = "DWARF_CFA_STACK_INVALID_ENTRY_IDX cfg"
  have ck: "config_ok cfg" and sh: "well_shaped cfg s" and lk: "links_ok cfg s"
    using assms by (simp_all add: basic_inv_def)
  have len: "length (entries s) = DWARF_CFA_STACK_MAX_REGISTERS cfg"
    using sh by (simp add: well_shaped_def)
  have B: "0 < DWARF_CFA_STACK_BUCKET_COUNT cfg" using ck by (simp add: config_ok_def)
  note g = basic_inv_guard[OF assms(1) B]
  have row: "list_all (valid_idx cfg) (table_stack s ! table_depth s)"
    using lk g(1) by (simp add: links_ok_def list_all_length)
  have vb: "\<And>i. valid_idx cfg i \<Longrightarrow> i \<noteq> ?inv \<Longrightarrow> i < length (entries s)"
    using len by (auto simp: valid_idx_def)
  show ?thesis
  proof (cases "cur_entry_idx it = ?inv")
    case True
    obtain b' c where bc: "iterator_next_bucket cfg (table_stack s ! table_depth s) (bucket_idx it) = Inr (b', c)"
      "valid_idx cfg c"
      using next_bucket_ok[OF g(4) row] by blast
    show ?thesis using iterator_next_seek[OF True g(1) bc(1) vb[OF bc(2)]] bc(2) by simp
  next
    case False
    note cur = vb[OF assms(2) False]
    show ?thesis
    proof (cases "e_next (entries s ! cur_entry_idx it) = ?inv")
      case True
      obtain b' c where bc: "iterator_next_bucket cfg (table_stack s ! table_depth s) (bucket_idx it + 1) = Inr (b', c)"
        "valid_idx cfg c"
        using next_bucket_ok[OF g(4) row] by blast
      show ?thesis using iterator_next_chain_end[OF False cur True g(1) bc(1) vb[OF bc(2)]] bc(2) by simp
    next
      case n: False
      have v: "valid_idx cfg (e_next (entries s ! cur_entry_idx it))" using links_next[OF lk cur] .
      show ?thesis using iterator_next_chain_step[OF False cur n vb[OF v n]] v by simp
    qed
  qed
qed

lemma iterator_calls_no_fault:
  "basic_inv cfg s \<Longrightarrow> valid_idx cfg (cur_entry_idx it) \<Longrightarrow>
   \<exists>outs. iterator_calls cfg s n it = Inr outs"
proof (induction n arbitrary: it)
  case 0
  then show ?case by simp
next
  case (Suc n)
  obtain it' out where n: "iterator_next cfg s it = Inr (it', out)" "valid_idx cfg (cur_entry_idx it')"
    using iterator_next_ok[OF Suc.prems] by blast
  obtain outs where "iterator_calls cfg s n it' = Inr outs"
    using Suc.IH[OF Suc.prems(1) n(2)] by blast
  then show ?case using n(1) by simp
qed

text \<open>
  Claim C10, amended to the levels in use. In every reachable state the sentinel is
  greater than every valid index; the \<open>next\<close> link of every entry, the free list head and
  every bucket head of the levels \<open>0\<close> to \<open>table_depth\<close> is the sentinel or an index below
  \<open>DWARF_CFA_STACK_MAX_REGISTERS\<close>; and no operation, nor any number of calls of a fresh
  iterator's \<open>next\<close>, reads the entry array out of bounds.
\<close>

theorem index_safety:
  assumes "reachable cfg s"
  shows "DWARF_CFA_STACK_MAX_REGISTERS cfg < DWARF_CFA_STACK_INVALID_ENTRY_IDX cfg \<and>
    list_all (\<lambda>e. valid_idx cfg (e_next e)) (entries s) \<and>
    valid_idx cfg (free_list s) \<and>
    list_all (list_all (valid_idx cfg)) (take (table_depth s + 1) (table_stack s)) \<and>
    set_register cfg s r rule v \<noteq> Some (Inl OutOfBounds) \<and>
    get_register_rule cfg s r \<noteq> Some (Inl OutOfBounds) \<and>
    remove_register cfg s r \<noteq> Some (Inl OutOfBounds) \<and>
    iterator_calls cfg s n (dwarf_cfa_stack_iterator cfg) \<noteq> Inl OutOfBounds"
proof -
  have inv: "basic_inv cfg s" using assms by (rule reachable_basic_inv)
  have "valid_idx cfg (cur_entry_idx (dwarf_cfa_stack_iterator cfg))"
    by (simp add: dwarf_cfa_stack_iterator_def)
  then have "iterator_calls cfg s n (dwarf_cfa_stack_iterator cfg) \<noteq> Inl OutOfBounds"
    using iterator_calls_no_fault[OF inv, of "dwarf_cfa_stack_iterator cfg" n] by auto
  then show ?thesis
    using inv set_register_no_fault[OF inv] get_register_rule_no_fault[OF inv]
      remove_register_no_fault[OF inv]
    by (simp add: basic_inv_def links_ok_def config_ok_def)
qed

theorem index_safety_witness:
  "reachable cfg_small stale_in_free_list \<and>
    DWARF_CFA_STACK_MAX_REGISTERS cfg_small < DWARF_CFA_STACK_INVALID_ENTRY_IDX cfg_small \<and>
    list_all (\<lambda>e. valid_idx cfg_small (e_next e)) (entries stale_in_free_list) \<and>
    valid_idx cfg_small (free_list stale_in_free_list) \<and>
    list_all (list_all (valid_idx cfg_small))
      (take (table_depth stale_in_free_list + 1) (table_stack stale_in_free_list)) \<and>
    set_register cfg_small stale_in_free_list 3 0 0 \<noteq> Some (Inl OutOfBounds) \<and>
    get_register_rule cfg_small stale_in_free_list 3 \<noteq> Some (Inl OutOfBounds) \<and>
    remove_register cfg_small stale_in_free_list 3 \<noteq> Some (Inl OutOfBounds) \<and>
    iterator_calls cfg_small stale_in_free_list 2 (dwarf_cfa_stack_iterator cfg_small) \<noteq> Inl OutOfBounds"
  using reachable_stale_in_free_list index_safety[OF reachable_stale_in_free_list] by simp

text \<open>
  Claim C10 as stated speaks of the bucket heads of every level. The constructor writes
  the bucket heads of level 0 only, and \<open>push_state\<close> those of the level it enters: a level
  that was never entered holds what the memory held before. Here it holds 7, which is
  neither the sentinel 255 nor below the capacity 4.
\<close>

theorem uninitialised_level_counterexample:
  "reachable cfg_small fresh_small \<and>
   table_stack fresh_small ! 1 ! 0 = 7 \<and>
   7 \<noteq> DWARF_CFA_STACK_INVALID_ENTRY_IDX cfg_small \<and>
   \<not> 7 < DWARF_CFA_STACK_MAX_REGISTERS cfg_small"
proof -
  have "table_stack fresh_small ! 1 ! 0 = 7 \<and>
   7 \<noteq> DWARF_CFA_STACK_INVALID_ENTRY_IDX cfg_small \<and>
   \<not> 7 < DWARF_CFA_STACK_MAX_REGISTERS cfg_small" by code_simp
  then show ?thesis using reachable_fresh_small by simp
qed

section \<open>Chains\<close>


lemma seg_append:
  "seg nil nx h (xs @ ys) t \<longleftrightarrow> (\<exists>m. seg nil nx h xs m \<and> seg nil nx m ys t)"
  by (induction xs arbitrary: h) auto

lemma seg_frame:
  "seg nil nx h xs t \<Longrightarrow> length nx' = length nx \<Longrightarrow> (\<forall>i\<in>set xs. nx' ! i = nx ! i) \<Longrightarrow>
   seg nil nx' h xs t"
  by (induction xs arbitrary: h) auto

lemma path_frame:
  "path nil nx h xs \<Longrightarrow> length nx' = length nx \<Longrightarrow> (\<forall>i\<in>set xs. nx' ! i = nx ! i) \<Longrightarrow>
   path nil nx' h xs"
  unfolding path_def by (rule seg_frame)

lemma path_Nil [simp]: "path nil nx h [] \<longleftrightarrow> h = nil"
  by (simp add: path_def)

lemma path_Cons [simp]:
  "path nil nx h (x # xs) \<longleftrightarrow> h = x \<and> x \<noteq> nil \<and> x < length nx \<and> path nil nx (nx ! x) xs"
  by (simp add: path_def)

lemma path_inv [simp]: "path nil nx nil xs \<longleftrightarrow> xs = []"
  by (cases xs) auto

lemma path_unique: "path nil nx h xs \<Longrightarrow> path nil nx h ys \<Longrightarrow> xs = ys"
proof (induction xs arbitrary: h ys)
  case Nil
  then show ?case by simp
next
  case (Cons x xs)
  then show ?case by (cases ys) auto
qed

lemma path_suffix:
  "path nil nx h (ys @ x # zs) \<Longrightarrow> path nil nx (nx ! x) zs"
  by (induction ys arbitrary: h) auto

lemma path_in_bounds: "path nil nx h xs \<Longrightarrow> i \<in> set xs \<Longrightarrow> i < length nx \<and> i \<noteq> nil"
  by (induction xs arbitrary: h) auto

lemma path_distinct: "path nil nx h xs \<Longrightarrow> distinct xs"
proof (induction xs arbitrary: h)
  case Nil
  then show ?case by simp
next
  case (Cons x xs)
  then have p: "path nil nx (nx ! x) xs" by simp
  have "x \<notin> set xs"
  proof
    assume "x \<in> set xs"
    then obtain ys zs where xs: "xs = ys @ x # zs" by (meson split_list)
    then have "path nil nx (nx ! x) zs" using p path_suffix by blast
    then have "zs = xs" using p path_unique by blast
    then show False using xs by (metis length_append length_Cons add_Suc_right not_add_less2 lessI)
  qed
  then show ?case using Cons.IH[OF p] by simp
qed

lemma distinct_bounded_length:
  assumes "distinct xs" "\<forall>i\<in>set xs. i < (n::nat)"
  shows "length xs \<le> n"
proof -
  have "set xs \<subseteq> {..<n}" using assms(2) by auto
  then have "card (set xs) \<le> card {..<n}" by (intro card_mono) simp_all
  then show ?thesis using assms(1) by (simp add: distinct_card)
qed

lemma path_length: "path nil nx h xs \<Longrightarrow> length xs \<le> length nx"
  using path_distinct path_in_bounds distinct_bounded_length by metis

lemma path_chain_fuel:
  "path nil nx h xs \<Longrightarrow> length xs \<le> n \<Longrightarrow> chain nil nx n h = xs"
proof (induction xs arbitrary: h n)
  case Nil
  then show ?case by (cases n) simp_all
next
  case (Cons x xs)
  then obtain m where "n = Suc m" by (cases n) auto
  then show ?case using Cons by simp
qed

lemma path_chain: "path nil nx h xs \<Longrightarrow> chain nil nx (length nx) h = xs"
  using path_chain_fuel path_length by blast

lemma path_chain_from:
  "path (DWARF_CFA_STACK_INVALID_ENTRY_IDX cfg) (nexts s) h xs \<Longrightarrow> chain_from cfg s h = xs"
  using path_chain[of _ "nexts s"] by (simp add: chain_from_def nexts_def)

section \<open>The loops on a chain\<close>


lemma set_loop_path:
  "path (DWARF_CFA_STACK_INVALID_ENTRY_IDX cfg) (map e_next es) idx xs \<Longrightarrow>
   set_register_loop cfg es r parent idx =
     Some (Inr (case find (\<lambda>i. e_regnum (es ! i) = r) xs of
                  Some i \<Rightarrow> Existing i
                | None \<Rightarrow> Parent (if xs = [] then parent else Some (last xs))))"
proof (induction xs arbitrary: idx parent)
  case Nil
  then show ?case by (subst set_register_loop.simps) simp
next
  case (Cons x xs)
  then have x: "idx = x" "x \<noteq> DWARF_CFA_STACK_INVALID_ENTRY_IDX cfg" "x < length es"
    and p: "path (DWARF_CFA_STACK_INVALID_ENTRY_IDX cfg) (map e_next es) (e_next (es ! x)) xs"
    by auto
  show ?case
  proof (cases "e_regnum (es ! x) = r")
    case True
    then show ?thesis using x by (subst set_register_loop.simps) simp
  next
    case False
    show ?thesis
    proof (cases "e_next (es ! x) = DWARF_CFA_STACK_INVALID_ENTRY_IDX cfg")
      case True
      then have "xs = []" using p by simp
      then show ?thesis using x False True by (subst set_register_loop.simps) simp
    next
      case n: False
      then have "xs \<noteq> []" using p by auto
      then show ?thesis using x False n Cons.IH[OF p, of "Some x"]
        by (subst set_register_loop.simps) (simp split: option.splits)
    qed
  qed
qed

lemma get_loop_path:
  "path (DWARF_CFA_STACK_INVALID_ENTRY_IDX cfg) (map e_next es) idx xs \<Longrightarrow>
   get_register_rule_loop cfg es r idx =
     Some (Inr (map_option (\<lambda>i. (e_rule (es ! i), e_value (es ! i)))
                  (find (\<lambda>i. e_regnum (es ! i) = r) xs)))"
proof (induction xs arbitrary: idx)
  case Nil
  then show ?case by (subst get_register_rule_loop.simps) simp
next
  case (Cons x xs)
  then have x: "idx = x" "x \<noteq> DWARF_CFA_STACK_INVALID_ENTRY_IDX cfg" "x < length es"
    and p: "path (DWARF_CFA_STACK_INVALID_ENTRY_IDX cfg) (map e_next es) (e_next (es ! x)) xs"
    by auto
  show ?case
  proof (cases "e_regnum (es ! x) = r")
    case True
    then show ?thesis using x by (subst get_register_rule_loop.simps) simp
  next
    case False
    show ?thesis
    proof (cases "e_next (es ! x) = DWARF_CFA_STACK_INVALID_ENTRY_IDX cfg")
      case True
      then have "xs = []" using p by simp
      then show ?thesis using x False True by (subst get_register_rule_loop.simps) simp
    next
      case n: False
      then show ?thesis using x False n Cons.IH[OF p]
        by (subst get_register_rule_loop.simps) simp
    qed
  qed
qed

lemma remove_loop_miss:
  "path (DWARF_CFA_STACK_INVALID_ENTRY_IDX cfg) (nexts s) idx xs \<Longrightarrow>
   \<forall>i\<in>set xs. e_regnum (entries s ! i) \<noteq> r \<Longrightarrow>
   remove_register_loop cfg r bk en idx s = Some (Inr s)"
proof (induction xs arbitrary: idx en)
  case Nil
  then show ?case by (subst remove_register_loop.simps) simp
next
  case (Cons x xs)
  then have x: "idx = x" "x \<noteq> DWARF_CFA_STACK_INVALID_ENTRY_IDX cfg" "x < length (entries s)"
    and p: "path (DWARF_CFA_STACK_INVALID_ENTRY_IDX cfg) (nexts s) (e_next (entries s ! x)) xs"
    by (auto simp: nexts_def)
  show ?case using x Cons.prems(2) Cons.IH[OF p, of "Some x"]
    by (subst remove_register_loop.simps) simp
qed

lemma remove_loop_hit:
  "path (DWARF_CFA_STACK_INVALID_ENTRY_IDX cfg) (nexts s) idx (pre @ e # post) \<Longrightarrow>
   \<forall>i\<in>set pre. e_regnum (entries s ! i) \<noteq> r \<Longrightarrow>
   e_regnum (entries s ! e) = r \<Longrightarrow>
   remove_register_loop cfg r bk en idx s =
     remove_register_loop cfg r bk (Some e) (free_list s)
       (remove_register_unlink bk (if pre = [] then en else Some (last pre)) e s)"
proof (induction pre arbitrary: idx en)
  case Nil
  then have x: "idx = e" "e \<noteq> DWARF_CFA_STACK_INVALID_ENTRY_IDX cfg" "e < length (entries s)"
    by (auto simp: nexts_def)
  show ?case using x Nil.prems(3) unlink_next_self[OF x(3), of bk en]
    by (subst remove_register_loop.simps) (simp add: Let_def)
next
  case (Cons x pre)
  then have x: "idx = x" "x \<noteq> DWARF_CFA_STACK_INVALID_ENTRY_IDX cfg" "x < length (entries s)"
    and p: "path (DWARF_CFA_STACK_INVALID_ENTRY_IDX cfg) (nexts s) (e_next (entries s ! x)) (pre @ e # post)"
    by (auto simp: nexts_def)
  have "remove_register_loop cfg r bk en idx s =
        remove_register_loop cfg r bk (Some x) (e_next (entries s ! x)) s"
    using x Cons.prems(2) by (subst remove_register_loop.simps) simp
  also have "\<dots> = remove_register_loop cfg r bk (Some e) (free_list s)
       (remove_register_unlink bk (if pre = [] then Some x else Some (last pre)) e s)"
    using Cons.IH[OF p, of "Some x"] Cons.prems by simp
  finally show ?case by simp
qed

lemma remove_loop_stale:
  assumes "path (DWARF_CFA_STACK_INVALID_ENTRY_IDX cfg) (nexts s) idx xs"
    and "\<exists>i\<in>set xs. e_regnum (entries s ! i) = r"
    and "free_list s \<notin> set xs" "free_list s < length (entries s)"
    and "free_list s \<noteq> DWARF_CFA_STACK_INVALID_ENTRY_IDX cfg"
    and "e_regnum (entries s ! free_list s) = r"
  shows "remove_register_loop cfg r bk en idx s = None"
proof -
  let ?P = "\<lambda>i. e_regnum (entries s ! i) = r"
  obtain pre x post where xs: "xs = pre @ x # post" and x: "?P x" and pre: "\<forall>i\<in>set pre. \<not> ?P i"
    using assms(2) split_list_first_prop[of xs ?P] by blast
  let ?s = "remove_register_unlink bk (if pre = [] then en else Some (last pre)) x s"
  have xb: "x < length (entries s)" "x \<noteq> DWARF_CFA_STACK_INVALID_ENTRY_IDX cfg"
    using path_in_bounds[OF assms(1), of x] xs by (simp_all add: nexts_def)
  have "x \<noteq> free_list s" using assms(3) xs by auto
  then have "spinning cfg r x (free_list s) ?s"
    using xb assms(4,5,6) x by (simp add: spinning_def unlink_fields unlink_regnum_nth)
  then have "remove_register_loop cfg r bk (Some x) (free_list s) ?s = None"
    by (rule spinning_diverges)
  then show ?thesis using remove_loop_hit[OF assms(1)[unfolded xs] _ x, of bk en] pre by simp
qed

section \<open>The structural invariant\<close>


lemma layout_chains:
  assumes "layout cfg s F L"
  shows "free_chain cfg s = F"
    and "d \<le> table_depth s \<Longrightarrow> b < DWARF_CFA_STACK_BUCKET_COUNT cfg \<Longrightarrow> bucket_chain cfg s d b = L d b"
  using assms by (simp_all add: layout_def free_chain_def bucket_chain_def path_chain_from)

lemma layout_chains_ok: "layout cfg s F L \<Longrightarrow> chains_ok cfg s"
  using layout_chains[of cfg s F L] by (simp add: chains_ok_def layout_def)

lemma chains_ok_layout: "chains_ok cfg s \<Longrightarrow> layout cfg s (free_chain cfg s) (bucket_chain cfg s)"
  by (simp add: chains_ok_def layout_def)

lemma length_level_view:
  "length (level_view cfg s d) =
     sum_list (map (\<lambda>b. length (bucket_chain cfg s d b)) [0..<DWARF_CFA_STACK_BUCKET_COUNT cfg])"
  by (simp add: level_view_def length_concat bucket_view_def comp_def)

lemma wfI:
  assumes "basic_inv cfg s" and "layout cfg s F L"
    and "\<And>d b. d \<le> table_depth s \<Longrightarrow> b < DWARF_CFA_STACK_BUCKET_COUNT cfg \<Longrightarrow> set (L d b) \<inter> set F = {}"
    and "\<And>d b d' b'. d \<le> table_depth s \<Longrightarrow> b < DWARF_CFA_STACK_BUCKET_COUNT cfg \<Longrightarrow>
           d' \<le> table_depth s \<Longrightarrow> b' < DWARF_CFA_STACK_BUCKET_COUNT cfg \<Longrightarrow> (d, b) \<noteq> (d', b') \<Longrightarrow>
           set (L d b) \<inter> set (L d' b') = {}"
    and "\<And>d b i. d \<le> table_depth s \<Longrightarrow> b < DWARF_CFA_STACK_BUCKET_COUNT cfg \<Longrightarrow> i \<in> set (L d b) \<Longrightarrow>
           unat (e_regnum (entries s ! i)) mod DWARF_CFA_STACK_BUCKET_COUNT cfg = b"
    and "\<And>d b. d \<le> table_depth s \<Longrightarrow> b < DWARF_CFA_STACK_BUCKET_COUNT cfg \<Longrightarrow>
           distinct (map (\<lambda>i. e_regnum (entries s ! i)) (L d b))"
    and "\<And>d. d \<le> table_depth s \<Longrightarrow>
           register_count s ! d = sum_list (map (\<lambda>b. length (L d b)) [0..<DWARF_CFA_STACK_BUCKET_COUNT cfg])"
  shows "wf cfg s"
proof -
  note ch = layout_chains[OF assms(2)]
  have "separate cfg s" unfolding separate_def
    using assms(3,4) ch by simp
  moreover have "keyed cfg s" unfolding keyed_def
    using assms(5,6) ch by simp
  moreover have "counted cfg s" unfolding counted_def length_level_view
  proof (intro allI impI)
    fix d assume d: "d \<le> table_depth s"
    have "map (\<lambda>b. length (bucket_chain cfg s d b)) [0..<DWARF_CFA_STACK_BUCKET_COUNT cfg] =
          map (\<lambda>b. length (L d b)) [0..<DWARF_CFA_STACK_BUCKET_COUNT cfg]"
      using ch(2)[OF d] by simp
    then show "register_count s ! d =
       sum_list (map (\<lambda>b. length (bucket_chain cfg s d b)) [0..<DWARF_CFA_STACK_BUCKET_COUNT cfg])"
      using assms(7)[OF d] by (simp only:)
  qed
  ultimately show ?thesis using assms(1) layout_chains_ok[OF assms(2)] by (simp add: wf_def)
qed

lemma wfD:
  assumes "wf cfg s"
  shows "basic_inv cfg s"
    and "layout cfg s (free_chain cfg s) (bucket_chain cfg s)"
    and "\<And>d b. d \<le> table_depth s \<Longrightarrow> b < DWARF_CFA_STACK_BUCKET_COUNT cfg \<Longrightarrow>
           set (bucket_chain cfg s d b) \<inter> set (free_chain cfg s) = {}"
    and "\<And>d b d' b'. d \<le> table_depth s \<Longrightarrow> b < DWARF_CFA_STACK_BUCKET_COUNT cfg \<Longrightarrow>
           d' \<le> table_depth s \<Longrightarrow> b' < DWARF_CFA_STACK_BUCKET_COUNT cfg \<Longrightarrow> (d, b) \<noteq> (d', b') \<Longrightarrow>
           set (bucket_chain cfg s d b) \<inter> set (bucket_chain cfg s d' b') = {}"
    and "\<And>d b i. d \<le> table_depth s \<Longrightarrow> b < DWARF_CFA_STACK_BUCKET_COUNT cfg \<Longrightarrow>
           i \<in> set (bucket_chain cfg s d b) \<Longrightarrow>
           unat (e_regnum (entries s ! i)) mod DWARF_CFA_STACK_BUCKET_COUNT cfg = b"
    and "\<And>d b. d \<le> table_depth s \<Longrightarrow> b < DWARF_CFA_STACK_BUCKET_COUNT cfg \<Longrightarrow>
           distinct (map (\<lambda>i. e_regnum (entries s ! i)) (bucket_chain cfg s d b))"
    and "\<And>d. d \<le> table_depth s \<Longrightarrow>
           register_count s ! d =
           sum_list (map (\<lambda>b. length (bucket_chain cfg s d b)) [0..<DWARF_CFA_STACK_BUCKET_COUNT cfg])"
proof -
  show "basic_inv cfg s" using assms by (simp add: wf_def)
  show "layout cfg s (free_chain cfg s) (bucket_chain cfg s)"
    using assms by (simp add: wf_def chains_ok_layout)
  have sep: "separate cfg s" and key: "keyed cfg s" and cnt: "counted cfg s"
    using assms by (simp_all add: wf_def)
  show "\<And>d b. d \<le> table_depth s \<Longrightarrow> b < DWARF_CFA_STACK_BUCKET_COUNT cfg \<Longrightarrow>
           set (bucket_chain cfg s d b) \<inter> set (free_chain cfg s) = {}"
    using sep by (simp add: separate_def)
  show "\<And>d b d' b'. d \<le> table_depth s \<Longrightarrow> b < DWARF_CFA_STACK_BUCKET_COUNT cfg \<Longrightarrow>
           d' \<le> table_depth s \<Longrightarrow> b' < DWARF_CFA_STACK_BUCKET_COUNT cfg \<Longrightarrow> (d, b) \<noteq> (d', b') \<Longrightarrow>
           set (bucket_chain cfg s d b) \<inter> set (bucket_chain cfg s d' b') = {}"
    using sep unfolding separate_def by blast
  show "\<And>d b i. d \<le> table_depth s \<Longrightarrow> b < DWARF_CFA_STACK_BUCKET_COUNT cfg \<Longrightarrow>
           i \<in> set (bucket_chain cfg s d b) \<Longrightarrow>
           unat (e_regnum (entries s ! i)) mod DWARF_CFA_STACK_BUCKET_COUNT cfg = b"
    using key unfolding keyed_def by blast
  show "\<And>d b. d \<le> table_depth s \<Longrightarrow> b < DWARF_CFA_STACK_BUCKET_COUNT cfg \<Longrightarrow>
           distinct (map (\<lambda>i. e_regnum (entries s ! i)) (bucket_chain cfg s d b))"
    using key unfolding keyed_def by blast
  show "\<And>d. d \<le> table_depth s \<Longrightarrow>
           register_count s ! d =
           sum_list (map (\<lambda>b. length (bucket_chain cfg s d b)) [0..<DWARF_CFA_STACK_BUCKET_COUNT cfg])"
    using cnt unfolding counted_def length_level_view by blast
qed

lemma insert_fields:
  "table_depth (set_register_insert cfg bk parent r rule v s) = table_depth s"
  "free_list (set_register_insert cfg bk parent r rule v s) = e_next (entries s ! free_list s)"
  "length (entries (set_register_insert cfg bk parent r rule v s)) = length (entries s)"
  "register_count (set_register_insert cfg bk parent r rule v s) =
     (register_count s)[table_depth s := (register_count s ! table_depth s + 1) mod 256]"
  by (cases parent; simp add: set_register_insert_def Let_def)+

lemma insert_nexts:
  "nexts (set_register_insert cfg bk parent r rule v s) =
     (case parent of
        None \<Rightarrow> (nexts s)[free_list s := DWARF_CFA_STACK_INVALID_ENTRY_IDX cfg]
      | Some p \<Rightarrow> (nexts s)[free_list s := DWARF_CFA_STACK_INVALID_ENTRY_IDX cfg, p := free_list s])"
  by (cases parent) (simp_all add: set_register_insert_def Let_def nexts_def map_update)

lemma insert_table:
  "table_stack (set_register_insert cfg bk parent r rule v s) =
     (case parent of
        None \<Rightarrow> (table_stack s)[table_depth s := (table_stack s ! table_depth s)[bk := free_list s]]
      | Some p \<Rightarrow> table_stack s)"
  by (cases parent) (simp_all add: set_register_insert_def Let_def)

lemma insert_triple:
  assumes "free_list s < length (entries s)" "i < length (entries s)"
  shows "entry_triple (set_register_insert cfg bk parent r rule v s) i =
     (if i = free_list s then (r, rule, v) else entry_triple s i)"
proof (cases parent)
  case None
  then show ?thesis using assms
    by (simp add: set_register_insert_def Let_def entry_triple_def)
next
  case (Some p)
  then show ?thesis using assms
    by (cases "i = p") (auto simp: set_register_insert_def Let_def entry_triple_def nth_list_update)
qed

lemma unlink_nexts:
  "nexts (remove_register_unlink bk prev e s) =
     (case prev of
        None \<Rightarrow> (nexts s)[e := free_list s]
      | Some p \<Rightarrow> (nexts s)[p := e_next (entries s ! e), e := free_list s])"
  by (cases prev) (simp_all add: remove_register_unlink_def Let_def nexts_def map_update)

lemma unlink_table:
  "table_stack (remove_register_unlink bk prev e s) =
     (case prev of
        None \<Rightarrow> (table_stack s)[table_depth s := (table_stack s ! table_depth s)[bk := e_next (entries s ! e)]]
      | Some p \<Rightarrow> table_stack s)"
  by (cases prev) (simp_all add: remove_register_unlink_def Let_def)

lemma unlink_count:
  "register_count (remove_register_unlink bk prev e s) =
     (register_count s)[table_depth s := (register_count s ! table_depth s + 255) mod 256]"
  by (cases prev) (simp_all add: remove_register_unlink_def Let_def)

lemma unlink_triple:
  "entry_triple (remove_register_unlink bk prev e s) i = entry_triple s i"
proof -
  have "e_rule (xs[k := (xs ! k)\<lparr>e_next := n\<rparr>] ! i) = e_rule (xs ! i)"
       "e_value (xs[k := (xs ! k)\<lparr>e_next := n\<rparr>] ! i) = e_value (xs ! i)"
       "e_regnum (xs[k := (xs ! k)\<lparr>e_next := n\<rparr>] ! i) = e_regnum (xs ! i)"
    for xs :: "dwarf_cfa_reg_entry list" and k n
    by (rule nth_update_same_field, simp)+
  then show ?thesis
    by (cases prev) (simp_all add: remove_register_unlink_def Let_def entry_triple_def)
qed


lemma wf_guard:
  assumes "wf cfg s" "bk < DWARF_CFA_STACK_BUCKET_COUNT cfg"
  shows "table_depth s < length (table_stack s)"
    and "bk < length (table_stack s ! table_depth s)"
    and "table_depth s < length (register_count s)"
  using basic_inv_guard[OF wfD(1)[OF assms(1)] assms(2)] by simp_all

lemma wf_bucket_path:
  "wf cfg s \<Longrightarrow> d \<le> table_depth s \<Longrightarrow> b < DWARF_CFA_STACK_BUCKET_COUNT cfg \<Longrightarrow>
   path (DWARF_CFA_STACK_INVALID_ENTRY_IDX cfg) (nexts s) (table_stack s ! d ! b) (bucket_chain cfg s d b)"
  using wfD(2) by (simp add: layout_def)

lemma wf_free_path:
  "wf cfg s \<Longrightarrow>
   path (DWARF_CFA_STACK_INVALID_ENTRY_IDX cfg) (nexts s) (free_list s) (free_chain cfg s)"
  using wfD(2) by (simp add: layout_def)

lemma wf_config: "wf cfg s \<Longrightarrow> config_ok cfg"
  by (simp add: wf_def basic_inv_def)

lemma wf_free_head:
  assumes "wf cfg s" "free_list s \<noteq> DWARF_CFA_STACK_INVALID_ENTRY_IDX cfg"
  shows "free_chain cfg s = free_list s # tl (free_chain cfg s)"
    and "free_list s < length (entries s)"
    and "path (DWARF_CFA_STACK_INVALID_ENTRY_IDX cfg) (nexts s) (e_next (entries s ! free_list s)) (tl (free_chain cfg s))"
    and "free_list s \<notin> set (tl (free_chain cfg s))"
proof -
  note p = wf_free_path[OF assms(1)]
  obtain x F0 where F: "free_chain cfg s = x # F0"
    using p assms(2) by (cases "free_chain cfg s") auto
  then have x: "x = free_list s" "free_list s < length (nexts s)"
     "path (DWARF_CFA_STACK_INVALID_ENTRY_IDX cfg) (nexts s) (nexts s ! free_list s) F0"
    using p by auto
  show "free_chain cfg s = free_list s # tl (free_chain cfg s)" using F x by simp
  show l: "free_list s < length (entries s)" using x(2) by (simp add: nexts_def)
  show "path (DWARF_CFA_STACK_INVALID_ENTRY_IDX cfg) (nexts s) (e_next (entries s ! free_list s)) (tl (free_chain cfg s))"
    using x(3) l F by (simp add: nexts_def)
  show "free_list s \<notin> set (tl (free_chain cfg s))"
    using path_distinct[OF p] F x(1) by simp
qed

lemma set_register_eq:
  assumes "wf cfg s"
  shows "set_register cfg s r rule v =
    (case find (\<lambda>i. e_regnum (entries s ! i) = r)
            (bucket_chain cfg s (table_depth s) (unat r mod DWARF_CFA_STACK_BUCKET_COUNT cfg)) of
       Some i \<Rightarrow> Some (Inr (True,
           s\<lparr>entries := (entries s)[i := (entries s ! i)\<lparr>e_rule := rule, e_value := v\<rparr>]\<rparr>))
     | None \<Rightarrow>
         if free_list s = DWARF_CFA_STACK_INVALID_ENTRY_IDX cfg then Some (Inr (False, s))
         else Some (Inr (True,
           set_register_insert cfg (unat r mod DWARF_CFA_STACK_BUCKET_COUNT cfg)
             (if bucket_chain cfg s (table_depth s) (unat r mod DWARF_CFA_STACK_BUCKET_COUNT cfg) = []
              then None
              else Some (last (bucket_chain cfg s (table_depth s) (unat r mod DWARF_CFA_STACK_BUCKET_COUNT cfg))))
             r rule v s)))"
proof -
  let ?bk = "unat r mod DWARF_CFA_STACK_BUCKET_COUNT cfg"
  let ?xs = "bucket_chain cfg s (table_depth s) ?bk"
  have bk: "?bk < DWARF_CFA_STACK_BUCKET_COUNT cfg" using wf_config[OF assms] by (rule bucket_lt)
  note g = wf_guard[OF assms bk]
  have p: "path (DWARF_CFA_STACK_INVALID_ENTRY_IDX cfg) (map e_next (entries s))
             (table_stack s ! table_depth s ! ?bk) ?xs"
    using wf_bucket_path[OF assms _ bk, of "table_depth s"] by (simp add: nexts_def)
  note loop = set_loop_path[OF p, of r None]
  show ?thesis
  proof (cases "find (\<lambda>i. e_regnum (entries s ! i) = r) ?xs")
    case (Some i)
    then show ?thesis using g loop by (simp add: set_register_def Let_def)
  next
    case None
    show ?thesis
    proof (cases "free_list s = DWARF_CFA_STACK_INVALID_ENTRY_IDX cfg")
      case True
      then show ?thesis using g loop None by (simp add: set_register_def Let_def)
    next
      case False
      then show ?thesis using g loop None wf_free_head(2)[OF assms False]
        by (simp add: set_register_def Let_def)
    qed
  qed
qed

lemma distinct_concat_upt:
  "(\<And>b. b < n \<Longrightarrow> distinct (f b)) \<Longrightarrow>
   (\<And>b b'. b < n \<Longrightarrow> b' < n \<Longrightarrow> b \<noteq> b' \<Longrightarrow> set (f b) \<inter> set (f b') = {}) \<Longrightarrow>
   distinct (concat (map f [0..<n]))"
proof (induction n)
  case 0
  then show ?case by simp
next
  case (Suc n)
  have "distinct (concat (map f [0..<n]))" using Suc by simp
  moreover have "distinct (f n)" using Suc.prems(1) by simp
  moreover have "set (concat (map f [0..<n])) \<inter> set (f n) = {}"
  proof -
    have "x \<notin> set (f n)" if "b < n" "x \<in> set (f b)" for x b
      using Suc.prems(2)[of b n] that by (auto simp: disjoint_iff)
    then show ?thesis by auto
  qed
  ultimately show ?case by simp
qed

lemma wf_chain_distinct:
  "wf cfg s \<Longrightarrow> d \<le> table_depth s \<Longrightarrow> b < DWARF_CFA_STACK_BUCKET_COUNT cfg \<Longrightarrow>
   distinct (bucket_chain cfg s d b)"
  using wf_bucket_path path_distinct by blast

lemma wf_chain_bounds:
  "wf cfg s \<Longrightarrow> d \<le> table_depth s \<Longrightarrow> b < DWARF_CFA_STACK_BUCKET_COUNT cfg \<Longrightarrow>
   i \<in> set (bucket_chain cfg s d b) \<Longrightarrow>
   i < length (entries s) \<and> i \<noteq> DWARF_CFA_STACK_INVALID_ENTRY_IDX cfg"
  using path_in_bounds[OF wf_bucket_path] by (fastforce simp: nexts_def)

lemma level_free_bound:
  assumes "wf cfg s" "d \<le> table_depth s"
  shows "sum_list (map (\<lambda>b. length (bucket_chain cfg s d b)) [0..<DWARF_CFA_STACK_BUCKET_COUNT cfg])
         + length (free_chain cfg s) \<le> DWARF_CFA_STACK_MAX_REGISTERS cfg"
proof -
  let ?B = "DWARF_CFA_STACK_BUCKET_COUNT cfg"
  let ?all = "concat (map (bucket_chain cfg s d) [0..<?B]) @ free_chain cfg s"
  have 1: "distinct (concat (map (bucket_chain cfg s d) [0..<?B]))"
  proof (rule distinct_concat_upt)
    show "\<And>b. b < ?B \<Longrightarrow> distinct (bucket_chain cfg s d b)"
      using wf_chain_distinct[OF assms] .
    show "\<And>b b'. b < ?B \<Longrightarrow> b' < ?B \<Longrightarrow> b \<noteq> b' \<Longrightarrow>
        set (bucket_chain cfg s d b) \<inter> set (bucket_chain cfg s d b') = {}"
      using wfD(4)[OF assms(1) assms(2) _ assms(2)] by simp
  qed
  have 2: "distinct (free_chain cfg s)" using wf_free_path[OF assms(1)] path_distinct by blast
  have 3: "set (concat (map (bucket_chain cfg s d) [0..<?B])) \<inter> set (free_chain cfg s) = {}"
  proof -
    have "x \<notin> set (free_chain cfg s)" if "b < ?B" "x \<in> set (bucket_chain cfg s d b)" for x b
      using wfD(3)[OF assms that(1)] that(2) by (auto simp: disjoint_iff)
    then show ?thesis by auto
  qed
  have d: "distinct ?all" using 1 2 3 by simp
  have len: "length (entries s) = DWARF_CFA_STACK_MAX_REGISTERS cfg"
    using wfD(1)[OF assms(1)] by (simp add: basic_inv_def well_shaped_def)
  have "\<forall>i\<in>set ?all. i < DWARF_CFA_STACK_MAX_REGISTERS cfg"
    using wf_chain_bounds[OF assms] path_in_bounds[OF wf_free_path[OF assms(1)]] len
    by (auto simp: nexts_def)
  then have "length ?all \<le> DWARF_CFA_STACK_MAX_REGISTERS cfg"
    using d distinct_bounded_length by blast
  then show ?thesis by (simp add: length_concat comp_def)
qed


lemma path_update_other:
  "path nil nx h xs \<Longrightarrow> e \<notin> set xs \<Longrightarrow> path nil (nx[e := k]) h xs"
  by (induction xs arbitrary: h) auto

lemma path_snoc:
  "path nil nx h xs \<Longrightarrow> xs \<noteq> [] \<Longrightarrow> f \<notin> set xs \<Longrightarrow> f \<noteq> nil \<Longrightarrow> f < length nx \<Longrightarrow>
   path nil (nx[f := nil, last xs := f]) h (xs @ [f])"
proof (induction xs arbitrary: h)
  case Nil
  then show ?case by simp
next
  case (Cons x xs)
  have d: "x \<notin> set xs" using path_distinct[OF Cons.prems(1)] by simp
  show ?case
  proof (cases "xs = []")
    case True
    then show ?thesis using Cons.prems by auto
  next
    case False
    have p: "path nil nx (nx ! x) xs" using Cons.prems(1) by simp
    have l: "last xs \<in> set xs" using False by simp
    then have "x \<noteq> last xs" using d by auto
    moreover have "x \<noteq> f" using Cons.prems(3) by simp
    ultimately have "nx[f := nil, last xs := f] ! x = nx ! x" by simp
    then show ?thesis using Cons.IH[OF p False] Cons.prems False by simp
  qed
qed

lemma path_unlink_first:
  "path nil nx h (e # post) \<Longrightarrow> path nil (nx[e := k]) (nx ! e) post"
proof -
  assume p: "path nil nx h (e # post)"
  then have "e \<notin> set post" using path_distinct by fastforce
  then show ?thesis using p by (auto intro: path_update_other)
qed

lemma path_unlink_later:
  "path nil nx h (pre @ e # post) \<Longrightarrow> pre \<noteq> [] \<Longrightarrow>
   path nil (nx[last pre := nx ! e, e := k]) h (pre @ post)"
proof (induction pre arbitrary: h)
  case Nil
  then show ?case by simp
next
  case (Cons x pre)
  note dist = path_distinct[OF Cons.prems(1)]
  have x: "h = x" "x \<noteq> nil" "x < length nx" and p: "path nil nx (nx ! x) (pre @ e # post)"
    using Cons.prems(1) by auto
  show ?case
  proof (cases "pre = []")
    case True
    then have "path nil nx (nx ! e) post" using p by simp
    moreover have "x \<notin> set post" "e \<notin> set post" "x \<noteq> e" using dist True by auto
    ultimately have "path nil (nx[x := nx ! e, e := k]) (nx ! e) post"
      by (intro path_update_other)
    then show ?thesis using True x \<open>x \<noteq> e\<close> by simp
  next
    case False
    then have "last pre \<in> set pre" by simp
    then have "x \<noteq> last pre" "x \<noteq> e" using dist by auto
    then have "nx[last pre := nx ! e, e := k] ! x = nx ! x" by simp
    then show ?thesis using Cons.IH[OF p False] x False by simp
  qed
qed

lemma nth_nested_update:
  "d < length t \<Longrightarrow> b < length (t ! d) \<Longrightarrow>
   t[d := (t ! d)[b := x]] ! d' ! b' = (if d' = d \<and> b' = b then x else t ! d' ! b')"
  by (cases "d' = d") (auto simp: nth_list_update)

lemma insert_layout:
  assumes wf: "wf cfg s"
    and fl: "free_list s \<noteq> DWARF_CFA_STACK_INVALID_ENTRY_IDX cfg"
    and bk: "bk < DWARF_CFA_STACK_BUCKET_COUNT cfg"
  shows "layout cfg
     (set_register_insert cfg bk
        (if bucket_chain cfg s (table_depth s) bk = [] then None
         else Some (last (bucket_chain cfg s (table_depth s) bk))) r rule v s)
     (tl (free_chain cfg s))
     (\<lambda>d' b'. if d' = table_depth s \<and> b' = bk
               then bucket_chain cfg s (table_depth s) bk @ [free_list s]
               else bucket_chain cfg s d' b')"
proof -
  let ?I = "DWARF_CFA_STACK_INVALID_ENTRY_IDX cfg"
  let ?d = "table_depth s"
  let ?xs = "bucket_chain cfg s ?d bk"
  let ?f = "free_list s"
  let ?par = "if ?xs = [] then None else Some (last ?xs)"
  let ?s' = "set_register_insert cfg bk ?par r rule v s"
  note fh = wf_free_head[OF wf fl]
  note g = wf_guard[OF wf bk]
  have fF: "?f \<in> set (free_chain cfg s)" using fh(1) by (metis list.set_intros(1))
  have tlF: "set (tl (free_chain cfg s)) \<subseteq> set (free_chain cfg s)"
    by (metis fh(1) set_subset_Cons)
  have f_out: "?f \<notin> set (bucket_chain cfg s d' b')"
    if "d' \<le> ?d" "b' < DWARF_CFA_STACK_BUCKET_COUNT cfg" for d' b'
    using wfD(3)[OF wf that] fF by auto
  have flen: "?f < length (nexts s)" using fh(2) by (simp add: nexts_def)
  have pxs: "path ?I (nexts s) (table_stack s ! ?d ! bk) ?xs"
    using wf_bucket_path[OF wf _ bk] by simp
  have nf: "nexts ?s' ! i = nexts s ! i"
    if "i \<noteq> ?f" "?xs \<noteq> [] \<Longrightarrow> i \<noteq> last ?xs" for i
    using that by (cases "?xs = []") (simp_all add: insert_nexts)
  have len': "length (nexts ?s') = length (nexts s)"
    by (simp add: nexts_def insert_fields)
  have free: "path ?I (nexts ?s') (free_list ?s') (tl (free_chain cfg s))"
  proof -
    have "i \<noteq> ?f \<and> (?xs \<noteq> [] \<longrightarrow> i \<noteq> last ?xs)" if "i \<in> set (tl (free_chain cfg s))" for i
    proof -
      have "last ?xs \<notin> set (free_chain cfg s)" if "?xs \<noteq> []"
        using wfD(3)[OF wf _ bk, of ?d] last_in_set[OF that] by auto
      then show ?thesis using that fh(4) tlF by auto
    qed
    then have "\<forall>i\<in>set (tl (free_chain cfg s)). nexts ?s' ! i = nexts s ! i"
      using nf by simp
    then show ?thesis using path_frame[OF fh(3) len'] by (simp add: insert_fields)
  qed
  have bucket: "path ?I (nexts ?s') (table_stack ?s' ! d' ! b')
        (if d' = ?d \<and> b' = bk then ?xs @ [?f] else bucket_chain cfg s d' b')"
    if d': "d' \<le> ?d" and b': "b' < DWARF_CFA_STACK_BUCKET_COUNT cfg" for d' b'
  proof (cases "d' = ?d \<and> b' = bk")
    case True
    show ?thesis
    proof (cases "?xs = []")
      case e: True
      then have "table_stack ?s' ! d' ! b' = ?f"
        using True g by (simp add: insert_table nth_nested_update)
      moreover have "nexts ?s' ! ?f = ?I" using e flen by (simp add: insert_nexts)
      ultimately have "path ?I (nexts ?s') (table_stack ?s' ! d' ! b') (?xs @ [?f])"
        using e fl flen len' by simp
      then show ?thesis by (simp only: if_P[OF True])
    next
      case ne: False
      then have "table_stack ?s' ! d' ! b' = table_stack s ! ?d ! bk"
        using True by (simp add: insert_table)
      moreover have "nexts ?s' = (nexts s)[?f := ?I, last ?xs := ?f]"
        using ne by (simp add: insert_nexts)
      ultimately have "path ?I (nexts ?s') (table_stack ?s' ! d' ! b') (?xs @ [?f])"
        using path_snoc[OF pxs ne f_out[OF _ bk, of ?d] fl flen] by simp
      then show ?thesis by (simp only: if_P[OF True])
    qed
  next
    case False
    have t: "table_stack ?s' ! d' ! b' = table_stack s ! d' ! b'"
      using False g by (cases "?xs = []") (auto simp: insert_table nth_nested_update)
    have "i \<noteq> ?f \<and> (?xs \<noteq> [] \<longrightarrow> i \<noteq> last ?xs)" if "i \<in> set (bucket_chain cfg s d' b')" for i
    proof -
      have "last ?xs \<notin> set (bucket_chain cfg s d' b')" if "?xs \<noteq> []"
        using wfD(4)[OF wf _ bk d' b', of ?d] False last_in_set[OF that] by auto
      then show ?thesis using that f_out[OF d' b'] by auto
    qed
    then have "\<forall>i\<in>set (bucket_chain cfg s d' b'). nexts ?s' ! i = nexts s ! i"
      using nf by simp
    then have "path ?I (nexts ?s') (table_stack s ! d' ! b') (bucket_chain cfg s d' b')"
      using path_frame[OF wf_bucket_path[OF wf d' b'] len'] by blast
    then show ?thesis by (simp only: if_not_P[OF False] t)
  qed
  show ?thesis unfolding layout_def
    using free bucket by (simp add: insert_fields)
qed


lemma sum_list_upt_point:
  "b0 < n \<Longrightarrow> (\<And>b. b < n \<Longrightarrow> b \<noteq> b0 \<Longrightarrow> g' b = g b) \<Longrightarrow> g' b0 = g b0 + (k::nat) \<Longrightarrow>
   sum_list (map g' [0..<n]) = sum_list (map g [0..<n]) + k"
proof (induction n)
  case 0
  then show ?case by simp
next
  case (Suc n)
  show ?case
  proof (cases "b0 = n")
    case True
    have "map g' [0..<n] = map g [0..<n]" using Suc.prems(2) True by simp
    then have "sum_list (map g' [0..<n]) = sum_list (map g [0..<n])" by (rule arg_cong)
    then show ?thesis using Suc.prems(3) True by simp
  next
    case False
    then have "b0 < n" using Suc.prems(1) by simp
    then have "sum_list (map g' [0..<n]) = sum_list (map g [0..<n]) + k"
      using Suc.IH Suc.prems(2,3) by simp
    moreover have "g' n = g n" using Suc.prems(2)[of n] False by simp
    ultimately show ?thesis by simp
  qed
qed

lemma regnum_triple: "e_regnum (entries s ! i) = fst (entry_triple s i)"
  by (simp add: entry_triple_def)

lemma find_None_regnum:
  "find (\<lambda>i. e_regnum (entries s ! i) = r) xs = None \<Longrightarrow> r \<notin> set (map (\<lambda>i. e_regnum (entries s ! i)) xs)"
  by (auto simp: find_None_iff)

lemma wf_insert:
  assumes wf: "wf cfg s"
    and fl: "free_list s \<noteq> DWARF_CFA_STACK_INVALID_ENTRY_IDX cfg"
    and nf: "find (\<lambda>i. e_regnum (entries s ! i) = r)
               (bucket_chain cfg s (table_depth s) (unat r mod DWARF_CFA_STACK_BUCKET_COUNT cfg)) = None"
    and s': "s' = set_register_insert cfg (unat r mod DWARF_CFA_STACK_BUCKET_COUNT cfg)
        (if bucket_chain cfg s (table_depth s) (unat r mod DWARF_CFA_STACK_BUCKET_COUNT cfg) = [] then None
         else Some (last (bucket_chain cfg s (table_depth s) (unat r mod DWARF_CFA_STACK_BUCKET_COUNT cfg))))
        r rule v s"
  shows "wf cfg s'"
    and "free_chain cfg s' = tl (free_chain cfg s)"
    and "\<And>d' b'. d' \<le> table_depth s \<Longrightarrow> b' < DWARF_CFA_STACK_BUCKET_COUNT cfg \<Longrightarrow>
           bucket_chain cfg s' d' b' =
             (if d' = table_depth s \<and> b' = unat r mod DWARF_CFA_STACK_BUCKET_COUNT cfg
              then bucket_chain cfg s (table_depth s) (unat r mod DWARF_CFA_STACK_BUCKET_COUNT cfg) @ [free_list s]
              else bucket_chain cfg s d' b')"
proof -
  let ?I = "DWARF_CFA_STACK_INVALID_ENTRY_IDX cfg"
  let ?B = "DWARF_CFA_STACK_BUCKET_COUNT cfg"
  let ?d = "table_depth s"
  let ?bk = "unat r mod ?B"
  let ?xs = "bucket_chain cfg s ?d ?bk"
  let ?f = "free_list s"
  let ?F = "free_chain cfg s"
  let ?L = "\<lambda>d' b'. if d' = ?d \<and> b' = ?bk then ?xs @ [?f] else bucket_chain cfg s d' b'"
  have bk: "?bk < ?B" using wf_config[OF wf] by (rule bucket_lt)
  have lay: "layout cfg s' (tl ?F) ?L" unfolding s' by (rule insert_layout[OF wf fl bk])
  have dep: "table_depth s' = ?d" by (simp add: s' insert_fields)
  note fh = wf_free_head[OF wf fl]
  have fF: "?f \<in> set ?F" using fh(1) by (metis list.set_intros(1))
  have tlF: "set (tl ?F) \<subseteq> set ?F" by (metis fh(1) set_subset_Cons)
  have f_out: "?f \<notin> set (bucket_chain cfg s d' b')" if "d' \<le> ?d" "b' < ?B" for d' b'
    using wfD(3)[OF wf that] fF by auto
  have set_eq: "set_register cfg s r rule v = Some (Inr (True, s'))"
    using set_register_eq[OF wf, of r rule v] nf fl s' by simp
  have binv: "basic_inv cfg s'" using basic_inv_set[OF wfD(1)[OF wf] set_eq] by simp
  have trip: "entry_triple s' i = (if i = ?f then (r, rule, v) else entry_triple s i)"
    if "i < length (entries s)" for i
    unfolding s' using insert_triple[OF fh(2) that] by simp
  have inL: "i < length (entries s)" if "d' \<le> ?d" "b' < ?B" "i \<in> set (bucket_chain cfg s d' b')" for i d' b'
    using wf_chain_bounds[OF wf that] by simp
  have reg_old: "e_regnum (entries s' ! i) = e_regnum (entries s ! i)"
    if "d' \<le> ?d" "b' < ?B" "i \<in> set (bucket_chain cfg s d' b')" for i d' b'
    using trip[OF inL[OF that]] f_out[OF that(1,2)] that(3) by (auto simp: regnum_triple)
  have reg_f: "e_regnum (entries s' ! ?f) = r" using trip[OF fh(2)] by (simp add: regnum_triple)
  show wf': "wf cfg s'"
  proof (rule wfI[OF binv lay])
    fix d' b' assume d': "d' \<le> table_depth s'" and b': "b' < ?B"
    have A: "set (bucket_chain cfg s d' b') \<inter> set (tl ?F) = {}"
      using wfD(3)[OF wf _ b', of d'] d' dep tlF by auto
    have C: "set (?xs @ [?f]) \<inter> set (tl ?F) = {}"
      using wfD(3)[OF wf _ bk, of ?d] tlF fh(4) by auto
    show "set (?L d' b') \<inter> set (tl ?F) = {}"
    proof (cases "d' = ?d \<and> b' = ?bk")
      case True
      show ?thesis using C by (simp only: if_P[OF True])
    next
      case False
      show ?thesis using A by (simp only: if_not_P[OF False])
    qed
  next
    fix d1 b1 d2 b2
    assume a: "d1 \<le> table_depth s'" "b1 < ?B" "d2 \<le> table_depth s'" "b2 < ?B" "(d1, b1) \<noteq> (d2, b2)"
    have old: "set (bucket_chain cfg s d1 b1) \<inter> set (bucket_chain cfg s d2 b2) = {}"
      using wfD(4)[OF wf _ a(2) _ a(4) a(5)] a(1,3) dep by simp
    have f1: "?f \<notin> set (bucket_chain cfg s d1 b1)" using f_out a dep by simp
    have f2: "?f \<notin> set (bucket_chain cfg s d2 b2)" using f_out a dep by simp
    show "set (?L d1 b1) \<inter> set (?L d2 b2) = {}"
    proof (cases "d1 = ?d \<and> b1 = ?bk")
      case True
      then have n2: "\<not> (d2 = ?d \<and> b2 = ?bk)" using a(5) by auto
      have "set (?xs @ [?f]) \<inter> set (bucket_chain cfg s d2 b2) = {}"
        using True old f2 by auto
      then show ?thesis by (simp only: if_P[OF True] if_not_P[OF n2])
    next
      case False
      show ?thesis
      proof (cases "d2 = ?d \<and> b2 = ?bk")
        case True
        have "set (bucket_chain cfg s d1 b1) \<inter> set (?xs @ [?f]) = {}"
          using True old f1 by auto
        then show ?thesis by (simp only: if_P[OF True] if_not_P[OF False])
      next
        case f: False
        show ?thesis using old by (simp only: if_not_P[OF False] if_not_P[OF f])
      qed
    qed
  next
    fix d' b' i assume a: "d' \<le> table_depth s'" "b' < ?B" "i \<in> set (?L d' b')"
    show "unat (e_regnum (entries s' ! i)) mod ?B = b'"
    proof (cases "i = ?f")
      case True
      then have "d' = ?d \<and> b' = ?bk" using a f_out[of d' b'] dep by (auto split: if_splits)
      then show ?thesis using True reg_f by simp
    next
      case False
      then have "i \<in> set (bucket_chain cfg s d' b')" using a(3) by (auto split: if_splits)
      then show ?thesis using reg_old[of d' b' i] wfD(5)[OF wf, of d' b' i] a dep by simp
    qed
  next
    fix d' b' assume a: "d' \<le> table_depth s'" "b' < ?B"
    have m: "map (\<lambda>i. e_regnum (entries s' ! i)) (bucket_chain cfg s d' b') =
             map (\<lambda>i. e_regnum (entries s ! i)) (bucket_chain cfg s d' b')"
      using reg_old[of d' b'] a dep by simp
    have old: "distinct (map (\<lambda>i. e_regnum (entries s ! i)) (bucket_chain cfg s d' b'))"
      using wfD(6)[OF wf _ a(2), of d'] a(1) dep by simp
    have old': "distinct (map (\<lambda>i. e_regnum (entries s' ! i)) (bucket_chain cfg s d' b'))"
      using old by (simp only: m)
    show "distinct (map (\<lambda>i. e_regnum (entries s' ! i)) (?L d' b'))"
    proof (cases "d' = ?d \<and> b' = ?bk")
      case True
      have "r \<notin> set (map (\<lambda>i. e_regnum (entries s ! i)) ?xs)" using nf by (rule find_None_regnum)
      moreover have xs_eq: "bucket_chain cfg s d' b' = ?xs" using True by simp
      ultimately have "r \<notin> set (map (\<lambda>i. e_regnum (entries s ! i)) (bucket_chain cfg s d' b'))"
        by simp
      then have "r \<notin> set (map (\<lambda>i. e_regnum (entries s' ! i)) (bucket_chain cfg s d' b'))"
        unfolding m .
      then have "distinct (map (\<lambda>i. e_regnum (entries s' ! i)) (bucket_chain cfg s d' b' @ [?f]))"
        using old' reg_f by simp
      then show ?thesis using True by simp
    next
      case False
      show ?thesis using old' by (simp only: if_not_P[OF False])
    qed
  next
    fix d' assume a: "d' \<le> table_depth s'"
    have old: "register_count s ! d' = sum_list (map (\<lambda>b. length (bucket_chain cfg s d' b)) [0..<?B])"
      using wfD(7)[OF wf, of d'] a dep by simp
    show "register_count s' ! d' = sum_list (map (\<lambda>b. length (?L d' b)) [0..<?B])"
    proof (cases "d' = ?d")
      case True
      have "sum_list (map (\<lambda>b. length (?L d' b)) [0..<?B]) =
            sum_list (map (\<lambda>b. length (bucket_chain cfg s d' b)) [0..<?B]) + 1"
        by (rule sum_list_upt_point[OF bk]) (simp_all add: True)
      moreover have "sum_list (map (\<lambda>b. length (bucket_chain cfg s ?d b)) [0..<?B]) + length ?F
            \<le> DWARF_CFA_STACK_MAX_REGISTERS cfg"
        using level_free_bound[OF wf] by simp
      moreover have "0 < length ?F" using fh(1) by (metis length_greater_0_conv list.discI)
      moreover have "DWARF_CFA_STACK_MAX_REGISTERS cfg < 255"
        using wf_config[OF wf] by (simp add: config_ok_def)
      ultimately show ?thesis using old True wf_guard(3)[OF wf bk]
        by (simp add: s' insert_fields)
    next
      case False
      have "map (\<lambda>b. length (?L d' b)) [0..<?B] = map (\<lambda>b. length (bucket_chain cfg s d' b)) [0..<?B]"
        using False by simp
      then show ?thesis using old False by (simp add: s' insert_fields)
    qed
  qed
  show "free_chain cfg s' = tl ?F" using layout_chains(1)[OF lay] .
  show "\<And>d' b'. d' \<le> ?d \<Longrightarrow> b' < ?B \<Longrightarrow> bucket_chain cfg s' d' b' = ?L d' b'"
    using layout_chains(2)[OF lay] dep by simp
qed


lemma map_update_same_field:
  "f y = f (xs ! k) \<Longrightarrow> map f (xs[k := y]) = map f xs"
  by (rule nth_equalityI) (simp_all add: nth_update_same_field)

lemma chain_from_cong:
  "nexts s' = nexts s \<Longrightarrow> length (entries s') = length (entries s) \<Longrightarrow>
   chain_from cfg s' h = chain_from cfg s h"
  by (simp add: chain_from_def)

lemma update_fields:
  assumes s'_def: "s' = s\<lparr>entries := (entries s)[i := (entries s ! i)\<lparr>e_rule := rule, e_value := v\<rparr>]\<rparr>"
  shows "nexts s' = nexts s"
    and "length (entries s') = length (entries s)"
    and "free_chain cfg s' = free_chain cfg s"
    and "bucket_chain cfg s' d b = bucket_chain cfg s d b"
    and "e_regnum (entries s' ! j) = e_regnum (entries s ! j)"
    and "i < length (entries s) \<Longrightarrow>
         entry_triple s' j = (if j = i then (e_regnum (entries s ! i), rule, v) else entry_triple s j)"
proof -
  show n: "nexts s' = nexts s"
    by (simp add: s'_def nexts_def map_update_same_field)
  show l: "length (entries s') = length (entries s)" by (simp add: s'_def)
  show "free_chain cfg s' = free_chain cfg s"
    using chain_from_cong[OF n l] by (simp add: free_chain_def s'_def)
  show "bucket_chain cfg s' d b = bucket_chain cfg s d b"
    using chain_from_cong[OF n l] by (simp add: bucket_chain_def s'_def)
  show "e_regnum (entries s' ! j) = e_regnum (entries s ! j)"
    by (simp add: s'_def nth_update_same_field)
  show "i < length (entries s) \<Longrightarrow>
         entry_triple s' j = (if j = i then (e_regnum (entries s ! i), rule, v) else entry_triple s j)"
    by (simp add: s'_def entry_triple_def)
qed

lemma wf_update:
  assumes wf: "wf cfg s"
    and f: "find (\<lambda>i. e_regnum (entries s ! i) = r)
               (bucket_chain cfg s (table_depth s) (unat r mod DWARF_CFA_STACK_BUCKET_COUNT cfg)) = Some i"
  shows "wf cfg (s\<lparr>entries := (entries s)[i := (entries s ! i)\<lparr>e_rule := rule, e_value := v\<rparr>]\<rparr>)"
proof -
  let ?s' = "s\<lparr>entries := (entries s)[i := (entries s ! i)\<lparr>e_rule := rule, e_value := v\<rparr>]\<rparr>"
  have set_eq: "set_register cfg s r rule v = Some (Inr (True, ?s'))"
    using set_register_eq[OF wf, of r rule v] f by simp
  have binv: "basic_inv cfg ?s'" using basic_inv_set[OF wfD(1)[OF wf] set_eq] by simp
  note uf = update_fields[OF refl, where s = s and i = i and rule = rule and v = v]
  have lay: "layout cfg ?s' (free_chain cfg s) (bucket_chain cfg s)"
    using wfD(2)[OF wf] by (simp add: layout_def uf(1))
  show ?thesis
  proof (rule wfI[OF binv lay])
    show "\<And>d b. d \<le> table_depth ?s' \<Longrightarrow> b < DWARF_CFA_STACK_BUCKET_COUNT cfg \<Longrightarrow>
        set (bucket_chain cfg s d b) \<inter> set (free_chain cfg s) = {}"
      using wfD(3)[OF wf] by simp
    show "\<And>d b d' b'. d \<le> table_depth ?s' \<Longrightarrow> b < DWARF_CFA_STACK_BUCKET_COUNT cfg \<Longrightarrow>
        d' \<le> table_depth ?s' \<Longrightarrow> b' < DWARF_CFA_STACK_BUCKET_COUNT cfg \<Longrightarrow> (d, b) \<noteq> (d', b') \<Longrightarrow>
        set (bucket_chain cfg s d b) \<inter> set (bucket_chain cfg s d' b') = {}"
      using wfD(4)[OF wf] by simp
    show "\<And>d b j. d \<le> table_depth ?s' \<Longrightarrow> b < DWARF_CFA_STACK_BUCKET_COUNT cfg \<Longrightarrow>
        j \<in> set (bucket_chain cfg s d b) \<Longrightarrow>
        unat (e_regnum (entries ?s' ! j)) mod DWARF_CFA_STACK_BUCKET_COUNT cfg = b"
      using wfD(5)[OF wf] by (simp only: uf(5)) simp
    show "\<And>d b. d \<le> table_depth ?s' \<Longrightarrow> b < DWARF_CFA_STACK_BUCKET_COUNT cfg \<Longrightarrow>
        distinct (map (\<lambda>j. e_regnum (entries ?s' ! j)) (bucket_chain cfg s d b))"
      using wfD(6)[OF wf] by (simp only: uf(5)) simp
    show "\<And>d. d \<le> table_depth ?s' \<Longrightarrow> register_count ?s' ! d =
        sum_list (map (\<lambda>b. length (bucket_chain cfg s d b)) [0..<DWARF_CFA_STACK_BUCKET_COUNT cfg])"
      using wfD(7)[OF wf] by simp
  qed
qed


lemma unlink_layout:
  assumes wf: "wf cfg s"
    and bk: "bk < DWARF_CFA_STACK_BUCKET_COUNT cfg"
    and xs: "bucket_chain cfg s (table_depth s) bk = pre @ e # post"
  shows "layout cfg
     (remove_register_unlink bk (if pre = [] then None else Some (last pre)) e s)
     (e # free_chain cfg s)
     (\<lambda>d' b'. if d' = table_depth s \<and> b' = bk then pre @ post else bucket_chain cfg s d' b')"
proof -
  let ?I = "DWARF_CFA_STACK_INVALID_ENTRY_IDX cfg"
  let ?B = "DWARF_CFA_STACK_BUCKET_COUNT cfg"
  let ?d = "table_depth s"
  let ?F = "free_chain cfg s"
  let ?prev = "if pre = [] then None else Some (last pre)"
  let ?s' = "remove_register_unlink bk ?prev e s"
  note g = wf_guard[OF wf bk]
  have pxs: "path ?I (nexts s) (table_stack s ! ?d ! bk) (pre @ e # post)"
    using wf_bucket_path[OF wf _ bk, of ?d] xs by simp
  have e_in: "e \<in> set (bucket_chain cfg s ?d bk)" using xs by simp
  have eb: "e < length (entries s)" "e \<noteq> ?I" using wf_chain_bounds[OF wf _ bk e_in] by simp_all
  have lp_in: "last pre \<in> set (bucket_chain cfg s ?d bk)" if "pre \<noteq> []"
    using xs last_in_set[OF that] by simp
  have ne: "nexts s ! e = e_next (entries s ! e)" using eb by (simp add: nexts_def)
  have len': "length (nexts ?s') = length (nexts s)" by (simp add: nexts_def unlink_fields)
  have same: "nexts ?s' ! i = nexts s ! i" if "i \<noteq> e" "pre \<noteq> [] \<Longrightarrow> i \<noteq> last pre" for i
    using that by (cases "pre = []") (simp_all add: unlink_nexts ne)
  have free: "path ?I (nexts ?s') (free_list ?s') (e # ?F)"
  proof -
    have "i \<noteq> e \<and> (pre \<noteq> [] \<longrightarrow> i \<noteq> last pre)" if "i \<in> set ?F" for i
      using wfD(3)[OF wf _ bk, of ?d] that e_in lp_in by auto
    then have "\<forall>i\<in>set ?F. nexts ?s' ! i = nexts s ! i" using same by simp
    then have "path ?I (nexts ?s') (free_list s) ?F"
      using path_frame[OF wf_free_path[OF wf] len'] by blast
    moreover have "nexts ?s' ! e = free_list s"
      using eb unlink_next_self[OF eb(1), of bk ?prev] by (simp add: nexts_def unlink_fields)
    ultimately show ?thesis using eb len' by (simp add: unlink_fields nexts_def)
  qed
  have bucket: "path ?I (nexts ?s') (table_stack ?s' ! d' ! b')
        (if d' = ?d \<and> b' = bk then pre @ post else bucket_chain cfg s d' b')"
    if d': "d' \<le> ?d" and b': "b' < ?B" for d' b'
  proof (cases "d' = ?d \<and> b' = bk")
    case True
    have "path ?I (nexts ?s') (table_stack ?s' ! d' ! b') (pre @ post)"
    proof (cases "pre = []")
      case e: True
      then have "table_stack ?s' ! d' ! b' = nexts s ! e"
        using True g by (simp add: unlink_table nth_nested_update ne)
      then show ?thesis using path_unlink_first[of ?I "nexts s" _ e post "free_list s"] pxs e
        by (simp add: unlink_nexts ne)
    next
      case n: False
      then have "table_stack ?s' ! d' ! b' = table_stack s ! ?d ! bk"
        using True by (simp add: unlink_table)
      then show ?thesis using path_unlink_later[OF pxs n, of "free_list s"] n by (simp add: unlink_nexts ne)
    qed
    then show ?thesis by (simp only: if_P[OF True])
  next
    case False
    have t: "table_stack ?s' ! d' ! b' = table_stack s ! d' ! b'"
      using False g by (cases "pre = []") (auto simp: unlink_table nth_nested_update)
    have "i \<noteq> e \<and> (pre \<noteq> [] \<longrightarrow> i \<noteq> last pre)" if "i \<in> set (bucket_chain cfg s d' b')" for i
      using wfD(4)[OF wf _ bk d' b', of ?d] False that e_in lp_in by auto
    then have "\<forall>i\<in>set (bucket_chain cfg s d' b'). nexts ?s' ! i = nexts s ! i"
      using same by simp
    then have "path ?I (nexts ?s') (table_stack s ! d' ! b') (bucket_chain cfg s d' b')"
      using path_frame[OF wf_bucket_path[OF wf d' b'] len'] by blast
    then show ?thesis by (simp only: if_not_P[OF False] t)
  qed
  show ?thesis unfolding layout_def using free bucket by (simp add: unlink_fields)
qed


lemma wf_unlink:
  assumes wf: "wf cfg s"
    and bk: "bk < DWARF_CFA_STACK_BUCKET_COUNT cfg"
    and xs: "bucket_chain cfg s (table_depth s) bk = pre @ e # post"
    and s': "s' = remove_register_unlink bk (if pre = [] then None else Some (last pre)) e s"
  shows "wf cfg s'"
    and "free_chain cfg s' = e # free_chain cfg s"
    and "\<And>d' b'. d' \<le> table_depth s \<Longrightarrow> b' < DWARF_CFA_STACK_BUCKET_COUNT cfg \<Longrightarrow>
           bucket_chain cfg s' d' b' =
             (if d' = table_depth s \<and> b' = bk then pre @ post else bucket_chain cfg s d' b')"
proof -
  let ?I = "DWARF_CFA_STACK_INVALID_ENTRY_IDX cfg"
  let ?B = "DWARF_CFA_STACK_BUCKET_COUNT cfg"
  let ?d = "table_depth s"
  let ?F = "free_chain cfg s"
  let ?xs = "bucket_chain cfg s ?d bk"
  let ?L = "\<lambda>d' b'. if d' = ?d \<and> b' = bk then pre @ post else bucket_chain cfg s d' b'"
  have lay: "layout cfg s' (e # ?F) ?L" unfolding s' by (rule unlink_layout[OF wf bk xs])
  have dep: "table_depth s' = ?d" by (simp add: s' unlink_fields)
  have e_in: "e \<in> set ?xs" using xs by simp
  have eb: "e < length (entries s)" using wf_chain_bounds[OF wf _ bk e_in] by simp
  have binv: "basic_inv cfg s'" unfolding s' by (rule unlink_basic(1)[OF wfD(1)[OF wf] bk eb])
  have sub: "set (pre @ post) \<subseteq> set ?xs" using xs by auto
  have e_out: "e \<notin> set (pre @ post)" using wf_chain_distinct[OF wf _ bk, of ?d] xs by auto
  have reg: "e_regnum (entries s' ! i) = e_regnum (entries s ! i)" for i
    by (simp add: s' unlink_regnum_nth)
  have Lsub: "set (?L d' b') \<subseteq> set (bucket_chain cfg s d' b')" for d' b'
    using sub by (cases "d' = ?d \<and> b' = bk") auto
  show "wf cfg s'"
  proof (rule wfI[OF binv lay])
    fix d' b' assume a: "d' \<le> table_depth s'" "b' < ?B"
    have "set (bucket_chain cfg s d' b') \<inter> set ?F = {}" using wfD(3)[OF wf _ a(2)] a(1) dep by simp
    then have 1: "set (?L d' b') \<inter> set ?F = {}" using Lsub[of d' b'] by blast
    have "e \<notin> set (?L d' b')"
    proof (cases "d' = ?d \<and> b' = bk")
      case True
      then show ?thesis using e_out by (simp only: if_P[OF True]) simp
    next
      case False
      have "set ?xs \<inter> set (bucket_chain cfg s d' b') = {}"
        using wfD(4)[OF wf _ bk _ a(2), of ?d d'] a(1) dep False by auto
      then show ?thesis using e_in by (simp only: if_not_P[OF False]) auto
    qed
    then show "set (?L d' b') \<inter> set (e # ?F) = {}" using 1 by simp
  next
    fix d1 b1 d2 b2
    assume a: "d1 \<le> table_depth s'" "b1 < ?B" "d2 \<le> table_depth s'" "b2 < ?B" "(d1, b1) \<noteq> (d2, b2)"
    have "set (bucket_chain cfg s d1 b1) \<inter> set (bucket_chain cfg s d2 b2) = {}"
      using wfD(4)[OF wf _ a(2) _ a(4) a(5)] a(1,3) dep by simp
    then show "set (?L d1 b1) \<inter> set (?L d2 b2) = {}"
      using Lsub[of d1 b1] Lsub[of d2 b2] by blast
  next
    fix d' b' i assume a: "d' \<le> table_depth s'" "b' < ?B" "i \<in> set (?L d' b')"
    then have "i \<in> set (bucket_chain cfg s d' b')" using Lsub by blast
    then show "unat (e_regnum (entries s' ! i)) mod ?B = b'"
      using wfD(5)[OF wf _ a(2), of d' i] a(1) dep by (simp add: reg)
  next
    fix d' b' assume a: "d' \<le> table_depth s'" "b' < ?B"
    have old: "distinct (map (\<lambda>i. e_regnum (entries s ! i)) (bucket_chain cfg s d' b'))"
      using wfD(6)[OF wf _ a(2), of d'] a(1) dep by simp
    show "distinct (map (\<lambda>i. e_regnum (entries s' ! i)) (?L d' b'))"
    proof (cases "d' = ?d \<and> b' = bk")
      case True
      have "distinct (map (\<lambda>i. e_regnum (entries s ! i)) (pre @ e # post))"
        using old True xs by simp
      then have "distinct (map (\<lambda>i. e_regnum (entries s ! i)) (pre @ post))" by auto
      then show ?thesis by (simp only: if_P[OF True] reg)
    next
      case False
      show ?thesis using old by (simp only: if_not_P[OF False] reg)
    qed
  next
    fix d' assume a: "d' \<le> table_depth s'"
    have old: "register_count s ! d' = sum_list (map (\<lambda>b. length (bucket_chain cfg s d' b)) [0..<?B])"
      using wfD(7)[OF wf, of d'] a dep by simp
    show "register_count s' ! d' = sum_list (map (\<lambda>b. length (?L d' b)) [0..<?B])"
    proof (cases "d' = ?d")
      case True
      have "sum_list (map (\<lambda>b. length (bucket_chain cfg s d' b)) [0..<?B]) =
            sum_list (map (\<lambda>b. length (?L d' b)) [0..<?B]) + 1"
        by (rule sum_list_upt_point[OF bk]) (simp_all add: True xs)
      moreover have "sum_list (map (\<lambda>b. length (bucket_chain cfg s ?d b)) [0..<?B])
            \<le> DWARF_CFA_STACK_MAX_REGISTERS cfg"
        using level_free_bound[OF wf, of ?d] by simp
      moreover have "DWARF_CFA_STACK_MAX_REGISTERS cfg < 255"
        using wf_config[OF wf] by (simp add: config_ok_def)
      ultimately show ?thesis using old True wf_guard(3)[OF wf bk]
        by (simp add: s' unlink_count)
    next
      case False
      have "map (\<lambda>b. length (?L d' b)) [0..<?B] = map (\<lambda>b. length (bucket_chain cfg s d' b)) [0..<?B]"
        using False by simp
      then show ?thesis using old False by (simp add: s' unlink_count)
    qed
  qed
  show "free_chain cfg s' = e # ?F" using layout_chains(1)[OF lay] .
  show "\<And>d' b'. d' \<le> ?d \<Longrightarrow> b' < ?B \<Longrightarrow> bucket_chain cfg s' d' b' = ?L d' b'"
    using layout_chains(2)[OF lay] dep by simp
qed

lemma remove_register_miss:
  assumes wf: "wf cfg s"
    and miss: "\<forall>i\<in>set (bucket_chain cfg s (table_depth s) (unat r mod DWARF_CFA_STACK_BUCKET_COUNT cfg)).
                 e_regnum (entries s ! i) \<noteq> r"
  shows "remove_register cfg s r = Some (Inr s)"
proof -
  let ?bk = "unat r mod DWARF_CFA_STACK_BUCKET_COUNT cfg"
  have bk: "?bk < DWARF_CFA_STACK_BUCKET_COUNT cfg" using wf_config[OF wf] by (rule bucket_lt)
  note g = wf_guard[OF wf bk]
  show ?thesis
    using g remove_loop_miss[OF wf_bucket_path[OF wf _ bk, of "table_depth s"] _, of r ?bk None] miss
    by (simp add: remove_register_def Let_def)
qed

lemma remove_register_hit:
  assumes wf: "wf cfg s"
    and xs: "bucket_chain cfg s (table_depth s) (unat r mod DWARF_CFA_STACK_BUCKET_COUNT cfg) = pre @ e # post"
    and pre: "\<forall>i\<in>set pre. e_regnum (entries s ! i) \<noteq> r"
    and e: "e_regnum (entries s ! e) = r"
  shows "remove_register cfg s r =
     (if \<exists>i\<in>set (free_chain cfg s). e_regnum (entries s ! i) = r then None
      else Some (Inr (remove_register_unlink (unat r mod DWARF_CFA_STACK_BUCKET_COUNT cfg)
                        (if pre = [] then None else Some (last pre)) e s)))"
proof -
  let ?I = "DWARF_CFA_STACK_INVALID_ENTRY_IDX cfg"
  let ?bk = "unat r mod DWARF_CFA_STACK_BUCKET_COUNT cfg"
  let ?s' = "remove_register_unlink ?bk (if pre = [] then None else Some (last pre)) e s"
  let ?F = "free_chain cfg s"
  have bk: "?bk < DWARF_CFA_STACK_BUCKET_COUNT cfg" using wf_config[OF wf] by (rule bucket_lt)
  note g = wf_guard[OF wf bk]
  have pxs: "path ?I (nexts s) (table_stack s ! table_depth s ! ?bk) (pre @ e # post)"
    using wf_bucket_path[OF wf _ bk, of "table_depth s"] xs by simp
  have 1: "remove_register cfg s r = remove_register_loop cfg r ?bk (Some e) (free_list s) ?s'"
    using g remove_loop_hit[OF pxs pre e, of ?bk None] by (simp add: remove_register_def Let_def)
  note u = wf_unlink[OF wf bk xs refl]
  have e_in: "e \<in> set (bucket_chain cfg s (table_depth s) ?bk)" using xs by simp
  have eb: "e < length (entries s)" "e \<noteq> ?I" using wf_chain_bounds[OF wf _ bk e_in] by simp_all
  have "path ?I (nexts ?s') (free_list ?s') (e # ?F)"
    using wf_free_path[OF u(1)] by (simp only: u(2))
  then have "path ?I (nexts ?s') (nexts ?s' ! e) ?F" by simp
  moreover have "nexts ?s' ! e = free_list s"
    using unlink_next_self[OF eb(1), of ?bk "if pre = [] then None else Some (last pre)"] eb(1)
    by (simp add: nexts_def unlink_fields)
  ultimately have pF: "path ?I (nexts ?s') (free_list s) ?F" by simp
  have eF: "e \<notin> set ?F" using wfD(3)[OF wf _ bk, of "table_depth s"] e_in by auto
  show ?thesis
  proof (cases "\<exists>i\<in>set ?F. e_regnum (entries s ! i) = r")
    case True
    then have "\<exists>i\<in>set ?F. e_regnum (entries ?s' ! i) = r" by (simp add: unlink_regnum_nth)
    then have "remove_register_loop cfg r ?bk (Some e) (free_list s) ?s' = None"
      using eF eb e by (intro remove_loop_stale[OF pF]) (simp_all add: unlink_fields unlink_regnum_nth)
    then show ?thesis using 1 True by simp
  next
    case False
    then have "\<forall>i\<in>set ?F. e_regnum (entries ?s' ! i) \<noteq> r" by (simp add: unlink_regnum_nth)
    then have "remove_register_loop cfg r ?bk (Some e) (free_list s) ?s' = Some (Inr ?s')"
      by (rule remove_loop_miss[OF pF])
    then show ?thesis using 1 False by simp
  qed
qed


lemma path_iota:
  assumes "length nx = n" "n \<le> nil"
    and "\<And>i. i < n \<Longrightarrow> nx ! i = (if i = n - 1 then nil else i + 1)"
  shows "k \<le> n \<Longrightarrow> path nil nx (if k = n then nil else k) [k..<n]"
proof (induction "n - k" arbitrary: k)
  case 0
  then show ?case by simp
next
  case (Suc m)
  then have k: "k < n" by simp
  have "path nil nx (if Suc k = n then nil else Suc k) [Suc k..<n]"
    using Suc.hyps(1)[of "Suc k"] Suc.hyps(2) k by simp
  moreover have "nx ! k = (if Suc k = n then nil else Suc k)"
    using assms(3)[OF k] k by auto
  ultimately show ?case using k assms(1,2) by (simp add: upt_conv_Cons)
qed

lemma chain_from_sentinel [simp]:
  "chain_from cfg s (DWARF_CFA_STACK_INVALID_ENTRY_IDX cfg) = []"
  using path_chain_from[of cfg s "DWARF_CFA_STACK_INVALID_ENTRY_IDX cfg" "[]"] by simp

lemma init_next:
  assumes "config_ok cfg" "well_shaped cfg mem" "i < DWARF_CFA_STACK_MAX_REGISTERS cfg"
  shows "e_next (entries (dwarf_cfa_stack cfg mem) ! i) =
     (if i = DWARF_CFA_STACK_MAX_REGISTERS cfg - 1 then DWARF_CFA_STACK_INVALID_ENTRY_IDX cfg else i + 1)"
proof -
  let ?n = "DWARF_CFA_STACK_MAX_REGISTERS cfg"
  have len: "length (entries mem) = ?n" using assms(2) by (simp add: well_shaped_def)
  have n: "?n < 255" using assms(1) by (simp add: config_ok_def)
  show ?thesis
  proof (cases "i = ?n - 1")
    case True
    then show ?thesis using assms(3) len
      by (simp add: dwarf_cfa_stack_def Let_def length_ctor_fold)
  next
    case False
    then have "(i + 1) mod 256 = i + 1" using assms(3) n by simp
    then show ?thesis using False assms(3) len
      by (simp add: dwarf_cfa_stack_def Let_def length_ctor_fold nth_ctor_fold)
  qed
qed

lemma init_fields:
  "free_list (dwarf_cfa_stack cfg mem) = 0"
  "table_depth (dwarf_cfa_stack cfg mem) = 0"
  "length (entries (dwarf_cfa_stack cfg mem)) = length (entries mem)"
  "register_count (dwarf_cfa_stack cfg mem) = (register_count mem)[0 := 0]"
  "table_stack (dwarf_cfa_stack cfg mem) = (table_stack mem)[0 :=
      replicate (DWARF_CFA_STACK_BUCKET_COUNT cfg) (DWARF_CFA_STACK_INVALID_ENTRY_IDX cfg)]"
  by (simp_all add: dwarf_cfa_stack_def Let_def length_ctor_fold)

lemma init_layout:
  assumes "config_ok cfg" "well_shaped cfg mem"
  shows "layout cfg (dwarf_cfa_stack cfg mem) [0..<DWARF_CFA_STACK_MAX_REGISTERS cfg] (\<lambda>d b. [])"
proof -
  let ?n = "DWARF_CFA_STACK_MAX_REGISTERS cfg"
  let ?I = "DWARF_CFA_STACK_INVALID_ENTRY_IDX cfg"
  let ?s = "dwarf_cfa_stack cfg mem"
  have len: "length (entries mem) = ?n" "0 < length (table_stack mem)"
    using assms by (simp_all add: well_shaped_def config_ok_def)
  have n: "0 < ?n" "?n \<le> ?I" using assms(1) by (simp_all add: config_ok_def)
  have "path ?I (nexts ?s) (if 0 = ?n then ?I else 0) [0..<?n]"
  proof (rule path_iota[OF _ n(2)])
    show "length (nexts ?s) = ?n" by (simp add: nexts_def init_fields len)
    show "\<And>i. i < ?n \<Longrightarrow> nexts ?s ! i = (if i = ?n - 1 then ?I else i + 1)"
      using init_next[OF assms] by (simp add: nexts_def init_fields len)
  qed simp
  then have "path ?I (nexts ?s) (free_list ?s) [0..<?n]" using n by (simp add: init_fields)
  moreover have "table_stack ?s ! 0 ! b = ?I" if "b < DWARF_CFA_STACK_BUCKET_COUNT cfg" for b
    using that len by (simp add: init_fields)
  ultimately show ?thesis by (simp add: layout_def init_fields)
qed

lemma wf_init:
  assumes "config_ok cfg" "well_shaped cfg mem"
  shows "wf cfg (dwarf_cfa_stack cfg mem)"
proof (rule wfI[OF basic_inv_init[OF assms] init_layout[OF assms]])
  show "\<And>d. d \<le> table_depth (dwarf_cfa_stack cfg mem) \<Longrightarrow>
      register_count (dwarf_cfa_stack cfg mem) ! d =
      sum_list (map (\<lambda>b. length []) [0..<DWARF_CFA_STACK_BUCKET_COUNT cfg])"
    using assms by (simp add: init_fields well_shaped_def config_ok_def)
qed simp_all

lemma wf_push:
  assumes wf: "wf cfg s" and p: "push_state cfg s = Inr (b, s')"
  shows "wf cfg s'"
proof (cases "table_depth s + 1 = DWARF_CFA_STACK_MAX_STATES cfg")
  case True
  then show ?thesis using assms by (simp add: push_state_def)
next
  case False
  let ?I = "DWARF_CFA_STACK_INVALID_ENTRY_IDX cfg"
  let ?B = "DWARF_CFA_STACK_BUCKET_COUNT cfg"
  let ?d = "table_depth s + 1"
  let ?row = "replicate ?B ?I"
  let ?L = "\<lambda>d' b'. if d' = ?d then [] else bucket_chain cfg s d' b'"
  have binv: "basic_inv cfg s" using wfD(1)[OF wf] .
  have d: "?d < DWARF_CFA_STACK_MAX_STATES cfg" using binv False by (simp add: basic_inv_def)
  have sh: "length (table_stack s) = DWARF_CFA_STACK_MAX_STATES cfg"
      "length (register_count s) = DWARF_CFA_STACK_MAX_STATES cfg"
    using binv by (simp_all add: basic_inv_def well_shaped_def)
  have s': "s' = s\<lparr>table_depth := ?d, register_count := (register_count s)[?d := 0],
                   table_stack := (table_stack s)[?d := ?row]\<rparr>"
    using p False d sh by (simp add: push_state_def Let_def)
  have nx: "nexts s' = nexts s" by (simp add: s' nexts_def)
  have lay: "layout cfg s' (free_chain cfg s) ?L"
    unfolding layout_def
  proof (intro conjI allI impI)
    show "path ?I (nexts s') (free_list s') (free_chain cfg s)"
      using wf_free_path[OF wf] by (simp add: nx) (simp add: s')
    fix d' b' assume a: "d' \<le> table_depth s'" "b' < ?B"
    show "path ?I (nexts s') (table_stack s' ! d' ! b') (?L d' b')"
    proof (cases "d' = ?d")
      case True
      then show ?thesis using a d sh by (simp add: s')
    next
      case False
      then have "d' \<le> table_depth s" using a by (simp add: s')
      then show ?thesis using wf_bucket_path[OF wf _ a(2), of d'] False
        by (simp add: nx) (simp add: s')
    qed
  qed
  show ?thesis
  proof (rule wfI[OF basic_inv_push[OF binv p] lay])
    fix d' b' assume a: "d' \<le> table_depth s'" "b' < ?B"
    show "set (?L d' b') \<inter> set (free_chain cfg s) = {}"
      using wfD(3)[OF wf _ a(2), of d'] a(1) by (auto simp: s')
    show "distinct (map (\<lambda>i. e_regnum (entries s' ! i)) (?L d' b'))"
      using wfD(6)[OF wf _ a(2), of d'] a(1) by (auto simp: s')
  next
    fix d1 b1 d2 b2
    assume a: "d1 \<le> table_depth s'" "b1 < ?B" "d2 \<le> table_depth s'" "b2 < ?B" "(d1, b1) \<noteq> (d2, b2)"
    show "set (?L d1 b1) \<inter> set (?L d2 b2) = {}"
    proof (cases "d1 = ?d \<or> d2 = ?d")
      case True
      then show ?thesis by auto
    next
      case False
      then have "d1 \<le> table_depth s" "d2 \<le> table_depth s" using a by (simp_all add: s')
      then show ?thesis using wfD(4)[OF wf _ a(2) _ a(4) a(5)] False by simp
    qed
  next
    fix d' b' i assume a: "d' \<le> table_depth s'" "b' < ?B" "i \<in> set (?L d' b')"
    then have "d' \<le> table_depth s" "i \<in> set (bucket_chain cfg s d' b')"
      by (auto simp: s' split: if_splits)
    then show "unat (e_regnum (entries s' ! i)) mod ?B = b'"
      using wfD(5)[OF wf _ a(2)] by (simp add: s')
  next
    fix d' assume a: "d' \<le> table_depth s'"
    show "register_count s' ! d' = sum_list (map (\<lambda>b. length (?L d' b)) [0..<?B])"
    proof (cases "d' = ?d")
      case True
      then show ?thesis using d sh by (simp add: s')
    next
      case False
      then have "d' \<le> table_depth s" using a by (simp add: s')
      then show ?thesis using wfD(7)[OF wf, of d'] False by (simp add: s')
    qed
  qed
qed

lemma wf_pop:
  assumes wf: "wf cfg s" and p: "pop_state cfg s = Inr (b, s')"
  shows "wf cfg s'"
proof (cases "table_depth s = 0")
  case True
  then show ?thesis using assms by (simp add: pop_state_def)
next
  case False
  then have s': "s' = s\<lparr>table_depth := table_depth s - 1\<rparr>"
    using p by (simp add: pop_state_def)
  have le: "d \<le> table_depth s' \<Longrightarrow> d \<le> table_depth s" for d by (simp add: s')
  have lay: "layout cfg s' (free_chain cfg s) (bucket_chain cfg s)"
    using wfD(2)[OF wf] by (simp add: layout_def s' nexts_def)
  have es: "entries s' = entries s" "register_count s' = register_count s" by (simp_all add: s')
  show ?thesis
  proof (rule wfI[OF basic_inv_pop[OF wfD(1)[OF wf] p] lay])
    fix d b assume a: "d \<le> table_depth s'" "b < DWARF_CFA_STACK_BUCKET_COUNT cfg"
    show "set (bucket_chain cfg s d b) \<inter> set (free_chain cfg s) = {}"
      using wfD(3)[OF wf le[OF a(1)] a(2)] .
    show "distinct (map (\<lambda>j. e_regnum (entries s' ! j)) (bucket_chain cfg s d b))"
      using wfD(6)[OF wf le[OF a(1)] a(2)] by (simp only: es)
  next
    fix d b d' b'
    assume a: "d \<le> table_depth s'" "b < DWARF_CFA_STACK_BUCKET_COUNT cfg"
      "d' \<le> table_depth s'" "b' < DWARF_CFA_STACK_BUCKET_COUNT cfg" "(d, b) \<noteq> (d', b')"
    show "set (bucket_chain cfg s d b) \<inter> set (bucket_chain cfg s d' b') = {}"
      using wfD(4)[OF wf le[OF a(1)] a(2) le[OF a(3)] a(4) a(5)] .
  next
    fix d b j
    assume a: "d \<le> table_depth s'" "b < DWARF_CFA_STACK_BUCKET_COUNT cfg" "j \<in> set (bucket_chain cfg s d b)"
    show "unat (e_regnum (entries s' ! j)) mod DWARF_CFA_STACK_BUCKET_COUNT cfg = b"
      using wfD(5)[OF wf le[OF a(1)] a(2) a(3)] by (simp only: es)
  next
    fix d assume a: "d \<le> table_depth s'"
    show "register_count s' ! d =
        sum_list (map (\<lambda>b. length (bucket_chain cfg s d b)) [0..<DWARF_CFA_STACK_BUCKET_COUNT cfg])"
      using wfD(7)[OF wf le[OF a]] by (simp only: es)
  qed
qed

lemma wf_set:
  assumes wf: "wf cfg s" and st: "set_register cfg s r rule v = Some (Inr (b, s'))"
  shows "wf cfg s'"
proof (cases "find (\<lambda>i. e_regnum (entries s ! i) = r)
            (bucket_chain cfg s (table_depth s) (unat r mod DWARF_CFA_STACK_BUCKET_COUNT cfg))")
  case (Some i)
  then have "s' = s\<lparr>entries := (entries s)[i := (entries s ! i)\<lparr>e_rule := rule, e_value := v\<rparr>]\<rparr>"
    using st set_register_eq[OF wf, of r rule v] by simp
  then show ?thesis using wf_update[OF wf Some] by simp
next
  case None
  show ?thesis
  proof (cases "free_list s = DWARF_CFA_STACK_INVALID_ENTRY_IDX cfg")
    case True
    then show ?thesis using st set_register_eq[OF wf, of r rule v] None wf by simp
  next
    case False
    then have "s' = set_register_insert cfg (unat r mod DWARF_CFA_STACK_BUCKET_COUNT cfg)
        (if bucket_chain cfg s (table_depth s) (unat r mod DWARF_CFA_STACK_BUCKET_COUNT cfg) = [] then None
         else Some (last (bucket_chain cfg s (table_depth s) (unat r mod DWARF_CFA_STACK_BUCKET_COUNT cfg))))
        r rule v s"
      using st set_register_eq[OF wf, of r rule v] None by simp
    then show ?thesis by (rule wf_insert(1)[OF wf False None])
  qed
qed

lemma wf_remove:
  assumes wf: "wf cfg s" and rm: "remove_register cfg s r = Some (Inr s')"
  shows "wf cfg s'"
proof (cases "\<forall>i\<in>set (bucket_chain cfg s (table_depth s) (unat r mod DWARF_CFA_STACK_BUCKET_COUNT cfg)).
                 e_regnum (entries s ! i) \<noteq> r")
  case True
  then show ?thesis using remove_register_miss[OF wf True] rm wf by simp
next
  case False
  let ?bk = "unat r mod DWARF_CFA_STACK_BUCKET_COUNT cfg"
  let ?P = "\<lambda>i. e_regnum (entries s ! i) = r"
  obtain pre e post where xs: "bucket_chain cfg s (table_depth s) ?bk = pre @ e # post"
    and e: "?P e" and pre: "\<forall>i\<in>set pre. \<not> ?P i"
    using False split_list_first_prop[of "bucket_chain cfg s (table_depth s) ?bk" ?P] by blast
  have bk: "?bk < DWARF_CFA_STACK_BUCKET_COUNT cfg" using wf_config[OF wf] by (rule bucket_lt)
  have "s' = remove_register_unlink ?bk (if pre = [] then None else Some (last pre)) e s"
    using remove_register_hit[OF wf xs pre e] rm by (simp split: if_splits)
  then show ?thesis using wf_unlink(1)[OF wf bk xs] by simp
qed

lemma wf_step: "step cfg s s' \<Longrightarrow> wf cfg s \<Longrightarrow> wf cfg s'"
proof (induction rule: step.induct)
  case (push s b s')
  then show ?case using wf_push by blast
next
  case (pop s b s')
  then show ?case using wf_pop by blast
next
  case (set s regnum rule v b s')
  then show ?case using wf_set by blast
next
  case (remove s regnum s')
  then show ?case using wf_remove by blast
qed

lemma reachable_wf: "reachable cfg s \<Longrightarrow> wf cfg s"
  by (induction rule: reachable.induct) (auto intro: wf_init wf_step)

section \<open>Views of a level\<close>


lemma map_of_find:
  "map_of (map (\<lambda>i. (k i, v i)) xs) r = map_option v (find (\<lambda>i. k i = r) xs)"
  by (induction xs) auto

lemma map_of_bucket_view:
  "map_of (bucket_view cfg s d b) r =
     map_option (\<lambda>i. (e_rule (entries s ! i), e_value (entries s ! i)))
       (find (\<lambda>i. e_regnum (entries s ! i) = r) (bucket_chain cfg s d b))"
  unfolding bucket_view_def entry_triple_def by (rule map_of_find)

lemma map_fst_bucket_view:
  "map fst (bucket_view cfg s d b) = map (\<lambda>i. e_regnum (entries s ! i)) (bucket_chain cfg s d b)"
  by (simp add: bucket_view_def entry_triple_def comp_def)

lemma bucket_view_keys:
  assumes "wf cfg s" "d \<le> table_depth s" "b < DWARF_CFA_STACK_BUCKET_COUNT cfg"
  shows "distinct (map fst (bucket_view cfg s d b))"
    and "t \<in> set (bucket_view cfg s d b) \<Longrightarrow> unat (fst t) mod DWARF_CFA_STACK_BUCKET_COUNT cfg = b"
proof -
  show "distinct (map fst (bucket_view cfg s d b))"
    using wfD(6)[OF assms] by (simp add: map_fst_bucket_view)
  show "t \<in> set (bucket_view cfg s d b) \<Longrightarrow> unat (fst t) mod DWARF_CFA_STACK_BUCKET_COUNT cfg = b"
    using wfD(5)[OF assms] by (auto simp: bucket_view_def entry_triple_def)
qed

lemma map_of_concat_hashed:
  fixes f :: "nat \<Rightarrow> ('k \<times> 'v) list"
  assumes "\<And>b t. b < n \<Longrightarrow> t \<in> set (f b) \<Longrightarrow> h (fst t) = b"
  shows "h r < n \<Longrightarrow> map_of (concat (map f [0..<n])) r = map_of (f (h r)) r"
  using assms
proof (induction n)
  case 0
  then show ?case by simp
next
  case (Suc n)
  have none: "map_of (f b) r = None" if "b < Suc n" "b \<noteq> h r" for b
  proof -
    have "r \<notin> fst ` set (f b)" using Suc.prems(2)[OF that(1)] that(2) by auto
    then show ?thesis by (simp add: map_of_eq_None_iff)
  qed
  show ?case
  proof (cases "h r = n")
    case True
    have "r \<notin> fst ` set (concat (map f [0..<n]))"
    proof
      assume "r \<in> fst ` set (concat (map f [0..<n]))"
      then obtain t b where "b < n" "t \<in> set (f b)" "fst t = r" by auto
      then show False using Suc.prems(2)[of b t] True by simp
    qed
    then have "map_of (concat (map f [0..<n])) r = None" by (simp add: map_of_eq_None_iff)
    then show ?thesis using True by (simp add: map_add_def split: option.splits)
  next
    case False
    then have "h r < n" using Suc.prems(1) by simp
    then have "map_of (concat (map f [0..<n])) r = map_of (f (h r)) r"
      using Suc.IH Suc.prems(2) by simp
    moreover have "map_of (f n) r = None" using none[of n] False by simp
    ultimately show ?thesis by (simp add: map_add_def split: option.splits)
  qed
qed

lemma distinct_concat_hashed:
  fixes f :: "nat \<Rightarrow> ('k \<times> 'v) list"
  assumes "\<And>b t. b < n \<Longrightarrow> t \<in> set (f b) \<Longrightarrow> h (fst t) = b"
    and "\<And>b. b < n \<Longrightarrow> distinct (map fst (f b))"
  shows "distinct (map fst (concat (map f [0..<n])))"
proof -
  have "distinct (concat (map (\<lambda>b. map fst (f b)) [0..<n]))"
  proof (rule distinct_concat_upt)
    show "\<And>b. b < n \<Longrightarrow> distinct (map fst (f b))" using assms(2) .
    fix b b' assume a: "b < n" "b' < n" "b \<noteq> b'"
    have "fst t \<noteq> fst t'" if "t \<in> set (f b)" "t' \<in> set (f b')" for t t'
      using assms(1)[OF a(1) that(1)] assms(1)[OF a(2) that(2)] a(3) by auto
    then show "set (map fst (f b)) \<inter> set (map fst (f b')) = {}" by auto
  qed
  then show ?thesis by (simp add: map_concat comp_def)
qed

lemma level_view_distinct:
  assumes "wf cfg s" "d \<le> table_depth s"
  shows "distinct (map fst (level_view cfg s d))"
  unfolding level_view_def
  by (rule distinct_concat_hashed[where h = "\<lambda>r. unat r mod DWARF_CFA_STACK_BUCKET_COUNT cfg"])
     (use bucket_view_keys[OF assms] in auto)

lemma map_of_level_view:
  assumes "wf cfg s" "d \<le> table_depth s"
  shows "map_of (level_view cfg s d) r =
         map_of (bucket_view cfg s d (unat r mod DWARF_CFA_STACK_BUCKET_COUNT cfg)) r"
  unfolding level_view_def
  by (rule map_of_concat_hashed[where h = "\<lambda>r. unat r mod DWARF_CFA_STACK_BUCKET_COUNT cfg"])
     (use bucket_view_keys(2)[OF assms] bucket_lt[OF wf_config[OF assms(1)]] in auto)

lemma get_register_rule_eq:
  assumes "wf cfg s"
  shows "get_register_rule cfg s r = Some (Inr (map_of (level_view cfg s (table_depth s)) r))"
proof -
  let ?bk = "unat r mod DWARF_CFA_STACK_BUCKET_COUNT cfg"
  have bk: "?bk < DWARF_CFA_STACK_BUCKET_COUNT cfg" using wf_config[OF assms] by (rule bucket_lt)
  note g = wf_guard[OF assms bk]
  have p: "path (DWARF_CFA_STACK_INVALID_ENTRY_IDX cfg) (map e_next (entries s))
             (table_stack s ! table_depth s ! ?bk) (bucket_chain cfg s (table_depth s) ?bk)"
    using wf_bucket_path[OF assms _ bk, of "table_depth s"] by (simp add: nexts_def)
  show ?thesis
    using g get_loop_path[OF p, of r]
    by (simp add: get_register_rule_def Let_def map_of_level_view[OF assms] map_of_bucket_view)
qed

lemma get_register_count_eq:
  assumes "wf cfg s"
  shows "get_register_count s = Inr (length (level_view cfg s (table_depth s)))"
proof -
  have "0 < DWARF_CFA_STACK_BUCKET_COUNT cfg" using wf_config[OF assms] by (simp add: config_ok_def)
  note g = wf_guard[OF assms this]
  have "counted cfg s" using assms by (simp add: wf_def)
  then show ?thesis using g by (simp add: get_register_count_def counted_def)
qed

lemma visible_triples:
  assumes "wf cfg s"
  shows "{(r, rule, v). get_register_rule cfg s r = Some (Inr (Some (rule, v)))} =
         set (level_view cfg s (table_depth s))"
  using level_view_distinct[OF assms, of "table_depth s"]
  by (auto simp: get_register_rule_eq[OF assms])


lemma find_Some_chain:
  "find P xs = Some i \<Longrightarrow> i \<in> set xs \<and> P i"
  by (auto simp: find_Some_iff)

lemma update_level_view:
  assumes wf: "wf cfg s"
    and f: "find (\<lambda>i. e_regnum (entries s ! i) = r)
               (bucket_chain cfg s (table_depth s) (unat r mod DWARF_CFA_STACK_BUCKET_COUNT cfg)) = Some i"
    and s': "s' = s\<lparr>entries := (entries s)[i := (entries s ! i)\<lparr>e_rule := rule, e_value := v\<rparr>]\<rparr>"
  shows "level_view cfg s' (table_depth s) =
           map (\<lambda>t. if fst t = r then (r, rule, v) else t) (level_view cfg s (table_depth s))"
    and "\<And>d b. d < table_depth s \<Longrightarrow> b < DWARF_CFA_STACK_BUCKET_COUNT cfg \<Longrightarrow>
           bucket_view cfg s' d b = bucket_view cfg s d b"
proof -
  let ?B = "DWARF_CFA_STACK_BUCKET_COUNT cfg"
  let ?d = "table_depth s"
  let ?bk = "unat r mod ?B"
  let ?g = "\<lambda>t. if fst t = r then (r, rule, v) else t"
  have bk: "?bk < ?B" using wf_config[OF wf] by (rule bucket_lt)
  note uf = update_fields[OF s']
  have i: "i \<in> set (bucket_chain cfg s ?d ?bk)" "e_regnum (entries s ! i) = r"
    using find_Some_chain[OF f] by simp_all
  have il: "i < length (entries s)" using wf_chain_bounds[OF wf _ bk i(1)] by simp
  have trip: "entry_triple s' j = (if j = i then (r, rule, v) else entry_triple s j)" for j
    using uf(6)[OF il, of j] i(2) by simp
  have cur: "bucket_view cfg s' ?d b = map ?g (bucket_view cfg s ?d b)" if b: "b < ?B" for b
  proof -
    have "(j = i) = (e_regnum (entries s ! j) = r)" if j: "j \<in> set (bucket_chain cfg s ?d b)" for j
    proof (cases "b = ?bk")
      case True
      have "distinct (map (\<lambda>i. e_regnum (entries s ! i)) (bucket_chain cfg s ?d ?bk))"
        using wfD(6)[OF wf _ bk, of ?d] by simp
      then have "inj_on (\<lambda>i. e_regnum (entries s ! i)) (set (bucket_chain cfg s ?d ?bk))"
        by (simp add: distinct_map)
      then show ?thesis using i j True by (auto dest: inj_onD)
    next
      case False
      have "unat (e_regnum (entries s ! j)) mod ?B = b" using wfD(5)[OF wf _ b j] by simp
      moreover have "j \<noteq> i" using wfD(4)[OF wf _ b _ bk, of ?d ?d] False i(1) j by auto
      ultimately show ?thesis using False by auto
    qed
    then show ?thesis
      by (simp add: bucket_view_def uf(4) trip regnum_triple[symmetric])
  qed
  have eq: "map (bucket_view cfg s' ?d) [0..<?B] = map (\<lambda>b. map ?g (bucket_view cfg s ?d b)) [0..<?B]"
    using cur by simp
  show "level_view cfg s' ?d = map ?g (level_view cfg s ?d)"
    unfolding level_view_def eq by (simp add: map_concat comp_def)
  show "bucket_view cfg s' d b = bucket_view cfg s d b" if d: "d < ?d" and b: "b < ?B" for d b
  proof -
    have "i \<notin> set (bucket_chain cfg s d b)"
      using wfD(4)[OF wf _ b _ bk, of d ?d] d i(1) by auto
    then show ?thesis by (auto simp: bucket_view_def uf(4) trip)
  qed
qed

lemma insert_bucket_view:
  assumes wf: "wf cfg s"
    and fl: "free_list s \<noteq> DWARF_CFA_STACK_INVALID_ENTRY_IDX cfg"
    and nf: "find (\<lambda>i. e_regnum (entries s ! i) = r)
               (bucket_chain cfg s (table_depth s) (unat r mod DWARF_CFA_STACK_BUCKET_COUNT cfg)) = None"
    and s': "s' = set_register_insert cfg (unat r mod DWARF_CFA_STACK_BUCKET_COUNT cfg)
        (if bucket_chain cfg s (table_depth s) (unat r mod DWARF_CFA_STACK_BUCKET_COUNT cfg) = [] then None
         else Some (last (bucket_chain cfg s (table_depth s) (unat r mod DWARF_CFA_STACK_BUCKET_COUNT cfg))))
        r rule v s"
    and d: "d \<le> table_depth s" and b: "b < DWARF_CFA_STACK_BUCKET_COUNT cfg"
  shows "bucket_view cfg s' d b =
     (if d = table_depth s \<and> b = unat r mod DWARF_CFA_STACK_BUCKET_COUNT cfg
      then bucket_view cfg s d b @ [(r, rule, v)] else bucket_view cfg s d b)"
proof -
  note fh = wf_free_head[OF wf fl]
  have fF: "free_list s \<in> set (free_chain cfg s)" using fh(1) by (metis list.set_intros(1))
  have f_out: "free_list s \<notin> set (bucket_chain cfg s d b)"
    using wfD(3)[OF wf d b] fF by auto
  have trip: "entry_triple s' i = (if i = free_list s then (r, rule, v) else entry_triple s i)"
    if "i < length (entries s)" for i
    unfolding s' using insert_triple[OF fh(2) that] by simp
  have old: "map (entry_triple s') (bucket_chain cfg s d b) = map (entry_triple s) (bucket_chain cfg s d b)"
    using trip wf_chain_bounds[OF wf d b] f_out by auto
  show ?thesis
  proof (cases "d = table_depth s \<and> b = unat r mod DWARF_CFA_STACK_BUCKET_COUNT cfg")
    case True
    have "bucket_chain cfg s' d b = bucket_chain cfg s d b @ [free_list s]"
      using wf_insert(3)[OF wf fl nf s' d b] True by simp
    then show ?thesis using True old trip[OF fh(2)] by (simp add: bucket_view_def)
  next
    case False
    have "bucket_chain cfg s' d b = bucket_chain cfg s d b"
      using wf_insert(3)[OF wf fl nf s' d b] False by simp
    then show ?thesis using False old by (simp add: bucket_view_def)
  qed
qed

lemma unlink_bucket_view:
  assumes wf: "wf cfg s"
    and bk: "bk < DWARF_CFA_STACK_BUCKET_COUNT cfg"
    and xs: "bucket_chain cfg s (table_depth s) bk = pre @ e # post"
    and s': "s' = remove_register_unlink bk (if pre = [] then None else Some (last pre)) e s"
    and d: "d \<le> table_depth s" and b: "b < DWARF_CFA_STACK_BUCKET_COUNT cfg"
  shows "bucket_view cfg s' d b =
     (if d = table_depth s \<and> b = bk then map (entry_triple s) (pre @ post) else bucket_view cfg s d b)"
  using wf_unlink(3)[OF wf bk xs s' d b]
  by (simp add: bucket_view_def s' unlink_triple)

section \<open>Updating an existing register\<close>


lemma filter_map_key:
  "distinct (map fst L) \<Longrightarrow> r \<in> fst ` set L \<Longrightarrow>
   filter (\<lambda>t. fst t = r) (map (\<lambda>t. if fst t = r then (r, y) else t) L) = [(r, y)]"
proof (induction L)
  case Nil
  then show ?case by simp
next
  case (Cons t L)
  show ?case
  proof (cases "fst t = r")
    case True
    then have "r \<notin> fst ` set L" using Cons.prems(1) by auto
    then have "filter (\<lambda>t. fst t = r) (map (\<lambda>t. if fst t = r then (r, y) else t) L) = []"
      by (force simp: filter_empty_conv)
    then show ?thesis using True by simp
  next
    case False
    then show ?thesis using Cons by auto
  qed
qed

lemma set_register_present:
  assumes wf: "wf cfg s" and st: "set_register cfg s r rule v = Some (Inr (True, s1))"
  shows "\<exists>i. find (\<lambda>i. e_regnum (entries s1 ! i) = r)
            (bucket_chain cfg s1 (table_depth s1) (unat r mod DWARF_CFA_STACK_BUCKET_COUNT cfg)) = Some i"
proof -
  let ?B = "DWARF_CFA_STACK_BUCKET_COUNT cfg"
  let ?bk = "unat r mod ?B"
  let ?xs = "bucket_chain cfg s (table_depth s) ?bk"
  have bk: "?bk < ?B" using wf_config[OF wf] by (rule bucket_lt)
  have "\<exists>i\<in>set (bucket_chain cfg s1 (table_depth s1) ?bk). e_regnum (entries s1 ! i) = r"
  proof (cases "find (\<lambda>i. e_regnum (entries s ! i) = r) ?xs")
    case (Some i)
    then have s1: "s1 = s\<lparr>entries := (entries s)[i := (entries s ! i)\<lparr>e_rule := rule, e_value := v\<rparr>]\<rparr>"
      using st set_register_eq[OF wf, of r rule v] by simp
    note uf = update_fields[OF s1]
    have "table_depth s1 = table_depth s" by (simp add: s1)
    then show ?thesis using find_Some_chain[OF Some] uf(4)[of cfg] uf(5) by auto
  next
    case None
    then have fl: "free_list s \<noteq> DWARF_CFA_STACK_INVALID_ENTRY_IDX cfg"
      using st set_register_eq[OF wf, of r rule v] by (auto split: if_splits)
    then have s1: "s1 = set_register_insert cfg ?bk
        (if ?xs = [] then None else Some (last ?xs)) r rule v s"
      using st set_register_eq[OF wf, of r rule v] None by simp
    have dep: "table_depth s1 = table_depth s" by (simp add: s1 insert_fields)
    have "bucket_view cfg s1 (table_depth s) ?bk = bucket_view cfg s (table_depth s) ?bk @ [(r, rule, v)]"
      using insert_bucket_view[OF wf fl None s1 _ bk, of "table_depth s"] by simp
    then have "r \<in> set (map fst (bucket_view cfg s1 (table_depth s) ?bk))" by simp
    then show ?thesis unfolding map_fst_bucket_view dep by auto
  qed
  then show ?thesis by (cases "find (\<lambda>i. e_regnum (entries s1 ! i) = r)
            (bucket_chain cfg s1 (table_depth s1) ?bk)") (auto simp: find_None_iff)
qed

text \<open>
  Claim C5, amended: the first call succeeds. After a successful
  \<open>set_register(r, rule1, v1)\<close> in a reachable state, a
  \<open>set_register(r, rule2, v2)\<close> at the same level succeeds; the level then holds exactly
  one entry for \<open>r\<close>, with \<open>rule2\<close> and \<open>v2\<close>, which \<open>get_register_rule\<close> returns; the
  register count, the free list head and the free list are what they were before the
  second call.
\<close>

theorem idempotent_update:
  assumes "reachable cfg s" and "set_register cfg s r rule1 v1 = Some (Inr (True, s1))"
  shows "case set_register cfg s1 r rule2 v2 of
           Some (Inr (ok, s2)) \<Rightarrow> ok \<and>
             filter (\<lambda>t. fst t = r) (level_view cfg s2 (table_depth s2)) = [(r, rule2, v2)] \<and>
             get_register_rule cfg s2 r = Some (Inr (Some (rule2, v2))) \<and>
             get_register_count s2 = get_register_count s1 \<and>
             free_list s2 = free_list s1 \<and> free_chain cfg s2 = free_chain cfg s1
         | _ \<Rightarrow> False"
proof -
  let ?B = "DWARF_CFA_STACK_BUCKET_COUNT cfg"
  let ?bk = "unat r mod ?B"
  let ?d = "table_depth s1"
  have wf: "wf cfg s" using assms(1) by (rule reachable_wf)
  have wf1: "wf cfg s1" using wf_set[OF wf assms(2)] .
  obtain i where f: "find (\<lambda>i. e_regnum (entries s1 ! i) = r) (bucket_chain cfg s1 ?d ?bk) = Some i"
    using set_register_present[OF wf assms(2)] by blast
  define s2 where "s2 = s1\<lparr>entries := (entries s1)[i := (entries s1 ! i)\<lparr>e_rule := rule2, e_value := v2\<rparr>]\<rparr>"
  have st2: "set_register cfg s1 r rule2 v2 = Some (Inr (True, s2))"
    using set_register_eq[OF wf1, of r rule2 v2] f by (simp add: s2_def)
  have wf2: "wf cfg s2" using wf_set[OF wf1 st2] .
  have dep: "table_depth s2 = ?d" by (simp add: s2_def)
  have lv: "level_view cfg s2 ?d = map (\<lambda>t. if fst t = r then (r, rule2, v2) else t) (level_view cfg s1 ?d)"
    using update_level_view(1)[OF wf1 f s2_def] .
  have dist1: "distinct (map fst (level_view cfg s1 ?d))" using level_view_distinct[OF wf1] by simp
  have "map_of (level_view cfg s1 ?d) r \<noteq> None"
    using f by (simp add: map_of_level_view[OF wf1] map_of_bucket_view)
  then have key: "r \<in> fst ` set (level_view cfg s1 ?d)" by (simp add: map_of_eq_None_iff)
  have flt: "filter (\<lambda>t. fst t = r) (level_view cfg s2 ?d) = [(r, rule2, v2)]"
    unfolding lv by (rule filter_map_key[OF dist1 key])
  then have "(r, rule2, v2) \<in> set (filter (\<lambda>t. fst t = r) (level_view cfg s2 ?d))" by simp
  then have "(r, rule2, v2) \<in> set (level_view cfg s2 ?d)" by simp
  then have "map_of (level_view cfg s2 ?d) r = Some (rule2, v2)"
    using level_view_distinct[OF wf2, of ?d] dep by simp
  then have get: "get_register_rule cfg s2 r = Some (Inr (Some (rule2, v2)))"
    by (simp add: get_register_rule_eq[OF wf2] dep)
  have cnt: "get_register_count s2 = get_register_count s1"
    by (simp add: get_register_count_def s2_def)
  have fc: "free_chain cfg s2 = free_chain cfg s1" using update_fields(3)[OF s2_def] .
  show ?thesis using st2 flt get cnt fc dep by (simp add: s2_def)
qed


lemma set_fresh_small:
  "set_register cfg_small fresh_small 1 5 6 = Some (Inr (True, one_register))"
  by code_simp

lemma reachable_one_register: "reachable cfg_small one_register"
  using reachable_fresh_small step.set[OF set_fresh_small] by (rule reachable.step)

theorem idempotent_update_witness:
  "reachable cfg_small fresh_small \<and>
   set_register cfg_small fresh_small 1 5 6 = Some (Inr (True, one_register)) \<and>
   (case set_register cfg_small one_register 1 7 8 of
           Some (Inr (ok, s2)) \<Rightarrow> ok \<and>
             filter (\<lambda>t. fst t = 1) (level_view cfg_small s2 (table_depth s2)) = [(1, 7, 8)] \<and>
             get_register_rule cfg_small s2 1 = Some (Inr (Some (7, 8))) \<and>
             get_register_count s2 = get_register_count one_register \<and>
             free_list s2 = free_list one_register \<and>
             free_chain cfg_small s2 = free_chain cfg_small one_register
         | _ \<Rightarrow> False)"
  using reachable_fresh_small set_fresh_small
    idempotent_update[OF reachable_fresh_small set_fresh_small, of 7 8]
  by simp

section \<open>Exhaustion of the pool\<close>


lemma take_map_nth: "n \<le> length xs \<Longrightarrow> take n xs = map ((!) xs) [0..<n]"
  by (rule nth_equalityI) simp_all

lemma level_nodes_distinct:
  assumes "wf cfg s" "d \<le> table_depth s"
  shows "distinct (concat (map (bucket_chain cfg s d) [0..<DWARF_CFA_STACK_BUCKET_COUNT cfg]))"
proof (rule distinct_concat_upt)
  show "\<And>b. b < DWARF_CFA_STACK_BUCKET_COUNT cfg \<Longrightarrow> distinct (bucket_chain cfg s d b)"
    using wf_chain_distinct[OF assms] .
  show "\<And>b b'. b < DWARF_CFA_STACK_BUCKET_COUNT cfg \<Longrightarrow> b' < DWARF_CFA_STACK_BUCKET_COUNT cfg \<Longrightarrow>
      b \<noteq> b' \<Longrightarrow> set (bucket_chain cfg s d b) \<inter> set (bucket_chain cfg s d b') = {}"
    using wfD(4)[OF assms(1) assms(2) _ assms(2)] by simp
qed

lemma live_free_bound:
  assumes wf: "wf cfg s"
  shows "live_count s + length (free_chain cfg s) \<le> DWARF_CFA_STACK_MAX_REGISTERS cfg"
proof -
  let ?B = "DWARF_CFA_STACK_BUCKET_COUNT cfg"
  define n where "n = table_depth s + 1"
  have n: "d \<le> table_depth s" if "d < n" for d using that by (simp add: n_def)
  let ?f = "\<lambda>d. concat (map (bucket_chain cfg s d) [0..<?B])"
  let ?all = "concat (map ?f [0..<n]) @ free_chain cfg s"
  have mem: "\<exists>b<?B. x \<in> set (bucket_chain cfg s d b)" if "x \<in> set (?f d)" for x d
    using that by auto
  have mem2: "\<exists>d<n. x \<in> set (?f d)" if "x \<in> set (concat (map ?f [0..<n]))" for x
    using that by auto
  have 1: "distinct (concat (map ?f [0..<n]))"
  proof (rule distinct_concat_upt)
    fix d assume "d < n"
    then show "distinct (?f d)" using level_nodes_distinct[OF wf n] by simp
  next
    fix d d' assume a: "d < n" "d' < n" "d \<noteq> d'"
    have "x \<notin> set (?f d')" if x: "x \<in> set (?f d)" for x
    proof
      assume x': "x \<in> set (?f d')"
      obtain b where b: "b < ?B" "x \<in> set (bucket_chain cfg s d b)" using mem[OF x] by blast
      obtain b' where b': "b' < ?B" "x \<in> set (bucket_chain cfg s d' b')" using mem[OF x'] by blast
      show False using wfD(4)[OF wf n[OF a(1)] b(1) n[OF a(2)] b'(1)] a(3) b(2) b'(2) by auto
    qed
    then show "set (?f d) \<inter> set (?f d') = {}" by blast
  qed
  have 2: "distinct (free_chain cfg s)" using wf_free_path[OF wf] path_distinct by blast
  have 3: "set (concat (map ?f [0..<n])) \<inter> set (free_chain cfg s) = {}"
  proof -
    have "x \<notin> set (free_chain cfg s)" if h: "x \<in> set (concat (map ?f [0..<n]))" for x
    proof -
      obtain d where d: "d < n" "x \<in> set (?f d)" using mem2[OF h] by blast
      obtain b where b: "b < ?B" "x \<in> set (bucket_chain cfg s d b)" using mem[OF d(2)] by blast
      show ?thesis using wfD(3)[OF wf n[OF d(1)] b(1)] b(2) by auto
    qed
    then show ?thesis unfolding disjoint_iff by blast
  qed
  have d: "distinct ?all" using 1 2 3 by simp
  have len: "length (entries s) = DWARF_CFA_STACK_MAX_REGISTERS cfg"
    using wfD(1)[OF wf] by (simp add: basic_inv_def well_shaped_def)
  have "i < DWARF_CFA_STACK_MAX_REGISTERS cfg" if h: "i \<in> set ?all" for i
  proof (cases "i \<in> set (free_chain cfg s)")
    case True
    then show ?thesis using path_in_bounds[OF wf_free_path[OF wf]] len by (auto simp: nexts_def)
  next
    case False
    then have "i \<in> set (concat (map ?f [0..<n]))" using h by simp
    then obtain d' where d': "d' < n" "i \<in> set (?f d')" using mem2 by blast
    then obtain b where b: "b < ?B" "i \<in> set (bucket_chain cfg s d' b)" using mem by blast
    then show ?thesis using wf_chain_bounds[OF wf n[OF d'(1)] b(1) b(2)] len by simp
  qed
  then have "length ?all \<le> DWARF_CFA_STACK_MAX_REGISTERS cfg"
    using d distinct_bounded_length by blast
  moreover have "length (concat (map ?f [0..<n])) = live_count s"
  proof -
    have "n \<le> length (register_count s)"
      using wfD(1)[OF wf] by (simp add: basic_inv_def well_shaped_def n_def)
    then have "take n (register_count s) = map ((!) (register_count s)) [0..<n]"
      by (rule take_map_nth)
    also have "\<dots> = map (\<lambda>d. length (?f d)) [0..<n]"
      using wfD(7)[OF wf n] by (simp add: length_concat comp_def)
    finally have "sum_list (take n (register_count s)) = sum_list (map (\<lambda>d. length (?f d)) [0..<n])"
      by (rule arg_cong)
    then show ?thesis by (simp add: live_count_def length_concat comp_def n_def del: upt_Suc)
  qed
  ultimately show ?thesis by simp
qed

lemma wf_free_empty:
  assumes "wf cfg s"
  shows "free_chain cfg s = [] \<longleftrightarrow> free_list s = DWARF_CFA_STACK_INVALID_ENTRY_IDX cfg"
  using wf_free_path[OF assms] by (cases "free_chain cfg s") auto

text \<open>
  Claim C4. In a reachable state \<open>set_register\<close> returns, without a fault; it returns false
  exactly when \<open>get_register_rule\<close> finds no entry for the register at the current level
  and the free list is empty, and then the object is unchanged. When the levels in use
  hold as many entries as the pool has, the free list is empty, so a register that has no
  entry at the current level is refused.
\<close>

theorem set_register_failure:
  assumes "reachable cfg s"
  shows "(case set_register cfg s r rule v of
            Some (Inr (ok, s')) \<Rightarrow>
              (ok \<longleftrightarrow> \<not> (get_register_rule cfg s r = Some (Inr None) \<and>
                          free_list s = DWARF_CFA_STACK_INVALID_ENTRY_IDX cfg)) \<and>
              (if ok then True else s' = s)
          | _ \<Rightarrow> False) \<and>
         (live_count s = DWARF_CFA_STACK_MAX_REGISTERS cfg \<and>
          get_register_rule cfg s r = Some (Inr None) \<longrightarrow>
            set_register cfg s r rule v = Some (Inr (False, s)))"
proof -
  let ?I = "DWARF_CFA_STACK_INVALID_ENTRY_IDX cfg"
  let ?bk = "unat r mod DWARF_CFA_STACK_BUCKET_COUNT cfg"
  let ?xs = "bucket_chain cfg s (table_depth s) ?bk"
  let ?fd = "find (\<lambda>i. e_regnum (entries s ! i) = r) ?xs"
  have wf: "wf cfg s" using assms by (rule reachable_wf)
  have get: "get_register_rule cfg s r = Some (Inr None) \<longleftrightarrow> ?fd = None"
    by (simp add: get_register_rule_eq[OF wf] map_of_level_view[OF wf] map_of_bucket_view)
  note eq = set_register_eq[OF wf, of r rule v]
  have 1: "case set_register cfg s r rule v of
            Some (Inr (ok, s')) \<Rightarrow>
              (ok \<longleftrightarrow> \<not> (get_register_rule cfg s r = Some (Inr None) \<and> free_list s = ?I)) \<and>
              (if ok then True else s' = s)
          | _ \<Rightarrow> False"
  proof (cases ?fd)
    case None
    then show ?thesis using eq get by (cases "free_list s = ?I") simp_all
  next
    case (Some i)
    then show ?thesis using eq get by simp
  qed
  have 2: "set_register cfg s r rule v = Some (Inr (False, s))"
    if "live_count s = DWARF_CFA_STACK_MAX_REGISTERS cfg" "get_register_rule cfg s r = Some (Inr None)"
  proof -
    have "free_chain cfg s = []" using live_free_bound[OF wf] that(1) by simp
    then have "free_list s = ?I" using wf_free_empty[OF wf] by simp
    then show ?thesis using eq get that(2) by simp
  qed
  show ?thesis using 1 2 by blast
qed

lemma reachable_full_pool: "reachable cfg_small full_pool"
proof -
  have 1: "set_register cfg_small fresh_small 1 0 0 = Some (Inr (True,
     \<lparr>entries = [\<lparr>e_regnum = 1, e_rule = 0, e_value = 0, e_next = 255\<rparr>,
                 \<lparr>e_regnum = 0, e_rule = 0, e_value = 0, e_next = 2\<rparr>,
                 \<lparr>e_regnum = 0, e_rule = 0, e_value = 0, e_next = 3\<rparr>,
                 \<lparr>e_regnum = 0, e_rule = 0, e_value = 0, e_next = 255\<rparr>],
      free_list = 1, table_stack = [[255, 0], [7, 7], [7, 7]],
      register_count = [1, 9, 9], table_depth = 0\<rparr>))" (is "_ = Some (Inr (True, ?s1))")
    by code_simp
  have 2: "set_register cfg_small ?s1 2 0 0 = Some (Inr (True,
     \<lparr>entries = [\<lparr>e_regnum = 1, e_rule = 0, e_value = 0, e_next = 255\<rparr>,
                 \<lparr>e_regnum = 2, e_rule = 0, e_value = 0, e_next = 255\<rparr>,
                 \<lparr>e_regnum = 0, e_rule = 0, e_value = 0, e_next = 3\<rparr>,
                 \<lparr>e_regnum = 0, e_rule = 0, e_value = 0, e_next = 255\<rparr>],
      free_list = 2, table_stack = [[1, 0], [7, 7], [7, 7]],
      register_count = [2, 9, 9], table_depth = 0\<rparr>))" (is "_ = Some (Inr (True, ?s2))")
    by code_simp
  have 3: "set_register cfg_small ?s2 3 0 0 = Some (Inr (True,
     \<lparr>entries = [\<lparr>e_regnum = 1, e_rule = 0, e_value = 0, e_next = 2\<rparr>,
                 \<lparr>e_regnum = 2, e_rule = 0, e_value = 0, e_next = 255\<rparr>,
                 \<lparr>e_regnum = 3, e_rule = 0, e_value = 0, e_next = 255\<rparr>,
                 \<lparr>e_regnum = 0, e_rule = 0, e_value = 0, e_next = 255\<rparr>],
      free_list = 3, table_stack = [[1, 0], [7, 7], [7, 7]],
      register_count = [3, 9, 9], table_depth = 0\<rparr>))" (is "_ = Some (Inr (True, ?s3))")
    by code_simp
  have 4: "set_register cfg_small ?s3 4 0 0 = Some (Inr (True, full_pool))"
    by code_simp
  show ?thesis
    using reachable_fresh_small step.set[OF 1] step.set[OF 2] step.set[OF 3] step.set[OF 4]
    by (meson reachable.step)
qed

theorem set_register_failure_witness:
  "reachable cfg_small full_pool \<and>
   live_count full_pool = DWARF_CFA_STACK_MAX_REGISTERS cfg_small \<and>
   get_register_rule cfg_small full_pool 5 = Some (Inr None) \<and>
   free_list full_pool = DWARF_CFA_STACK_INVALID_ENTRY_IDX cfg_small \<and>
   set_register cfg_small full_pool 5 0 0 = Some (Inr (False, full_pool))"
proof -
  have a: "live_count full_pool = DWARF_CFA_STACK_MAX_REGISTERS cfg_small" by code_simp
  have b: "get_register_rule cfg_small full_pool 5 = Some (Inr None)" by code_simp
  have c: "free_list full_pool = DWARF_CFA_STACK_INVALID_ENTRY_IDX cfg_small" by code_simp
  show ?thesis
    using reachable_full_pool a b c set_register_failure[OF reachable_full_pool, of 5 0 0]
    by simp
qed

section \<open>What a push changes, and who frees entries\<close>


lemma push_state_eq:
  assumes "basic_inv cfg s"
  shows "push_state cfg s =
     (if table_depth s + 1 = DWARF_CFA_STACK_MAX_STATES cfg then Inr (False, s)
      else Inr (True,
        s\<lparr>table_depth := table_depth s + 1,
          register_count := (register_count s)[table_depth s + 1 := 0],
          table_stack := (table_stack s)[table_depth s + 1 :=
            replicate (DWARF_CFA_STACK_BUCKET_COUNT cfg) (DWARF_CFA_STACK_INVALID_ENTRY_IDX cfg)]\<rparr>))"
  using assms by (auto simp: push_state_def Let_def basic_inv_def well_shaped_def)

text \<open>
  Claim C8. In a reachable state \<open>push_state\<close> leaves the entries, the free list head and
  the free list as they are, and changes the bucket array and the register count of no
  level but the one it enters. \<open>pop_state\<close> leaves the free list as it is, and
  \<open>set_register\<close> leaves it as it is or takes its head: neither of the three puts an entry
  on the free list, which only \<open>remove_register\<close> does.
\<close>

theorem push_frame_and_reclamation:
  assumes "reachable cfg s"
  shows "(case push_state cfg s of
            Inr (ok, s') \<Rightarrow>
              entries s' = entries s \<and> free_list s' = free_list s \<and>
              free_chain cfg s' = free_chain cfg s \<and>
              table_stack s' = (table_stack s)[table_depth s' := table_stack s' ! table_depth s'] \<and>
              register_count s' = (register_count s)[table_depth s' := register_count s' ! table_depth s']
          | Inl f \<Rightarrow> False) \<and>
         (case pop_state cfg s of
            Inr (ok, s') \<Rightarrow> free_chain cfg s' = free_chain cfg s
          | Inl f \<Rightarrow> False) \<and>
         (case set_register cfg s r rule v of
            Some (Inr (ok, s')) \<Rightarrow>
              free_chain cfg s' = free_chain cfg s \<or> free_chain cfg s' = tl (free_chain cfg s)
          | _ \<Rightarrow> False)"
proof -
  have wf: "wf cfg s" using assms by (rule reachable_wf)
  have binv: "basic_inv cfg s" using wfD(1)[OF wf] .
  have len: "table_depth s < length (table_stack s)" "table_depth s < length (register_count s)"
      "length (table_stack s) = DWARF_CFA_STACK_MAX_STATES cfg"
      "length (register_count s) = DWARF_CFA_STACK_MAX_STATES cfg"
    using binv by (simp_all add: basic_inv_def well_shaped_def)
  have 1: "case push_state cfg s of
            Inr (ok, s') \<Rightarrow>
              entries s' = entries s \<and> free_list s' = free_list s \<and>
              free_chain cfg s' = free_chain cfg s \<and>
              table_stack s' = (table_stack s)[table_depth s' := table_stack s' ! table_depth s'] \<and>
              register_count s' = (register_count s)[table_depth s' := register_count s' ! table_depth s']
          | Inl f \<Rightarrow> False"
  proof (cases "table_depth s + 1 = DWARF_CFA_STACK_MAX_STATES cfg")
    case True
    then show ?thesis by (simp add: push_state_eq[OF binv])
  next
    case False
    then have "table_depth s + 1 < DWARF_CFA_STACK_MAX_STATES cfg" using len by simp
    then show ?thesis using False len
      by (simp add: push_state_eq[OF binv] free_chain_def chain_from_def nexts_def)
  qed
  have 2: "case pop_state cfg s of
            Inr (ok, s') \<Rightarrow> free_chain cfg s' = free_chain cfg s
          | Inl f \<Rightarrow> False"
    by (simp add: pop_state_def free_chain_def chain_from_def nexts_def)
  let ?fd = "find (\<lambda>i. e_regnum (entries s ! i) = r)
      (bucket_chain cfg s (table_depth s) (unat r mod DWARF_CFA_STACK_BUCKET_COUNT cfg))"
  note eq = set_register_eq[OF wf, of r rule v]
  have 3: "case set_register cfg s r rule v of
            Some (Inr (ok, s')) \<Rightarrow>
              free_chain cfg s' = free_chain cfg s \<or> free_chain cfg s' = tl (free_chain cfg s)
          | _ \<Rightarrow> False"
  proof (cases ?fd)
    case (Some i)
    then show ?thesis using eq update_fields(3)[OF refl, where cfg = cfg and s = s and i = i and rule = rule and v = v] by simp
  next
    case None
    show ?thesis
    proof (cases "free_list s = DWARF_CFA_STACK_INVALID_ENTRY_IDX cfg")
      case True
      then show ?thesis using eq None by simp
    next
      case False
      then show ?thesis using eq None wf_insert(2)[OF wf False None refl, of rule v] by simp
    qed
  qed
  show ?thesis using 1 2 3 by blast
qed

theorem push_frame_and_reclamation_witness:
  "reachable cfg_small one_register \<and>
   (case push_state cfg_small one_register of
            Inr (ok, s') \<Rightarrow>
              entries s' = entries one_register \<and> free_list s' = free_list one_register \<and>
              free_chain cfg_small s' = free_chain cfg_small one_register \<and>
              table_stack s' = (table_stack one_register)[table_depth s' := table_stack s' ! table_depth s'] \<and>
              register_count s' =
                (register_count one_register)[table_depth s' := register_count s' ! table_depth s']
          | Inl f \<Rightarrow> False) \<and>
         (case pop_state cfg_small one_register of
            Inr (ok, s') \<Rightarrow> free_chain cfg_small s' = free_chain cfg_small one_register
          | Inl f \<Rightarrow> False) \<and>
         (case set_register cfg_small one_register 2 0 0 of
            Some (Inr (ok, s')) \<Rightarrow>
              free_chain cfg_small s' = free_chain cfg_small one_register \<or>
              free_chain cfg_small s' = tl (free_chain cfg_small one_register)
          | _ \<Rightarrow> False)"
  using reachable_one_register push_frame_and_reclamation[OF reachable_one_register, of 2 0 0]
  by simp

section \<open>The partition of the pool\<close>


lemma filter_at_most_one:
  "distinct xs \<Longrightarrow> (\<And>x y. x \<in> set xs \<Longrightarrow> y \<in> set xs \<Longrightarrow> P x \<Longrightarrow> P y \<Longrightarrow> x = y) \<Longrightarrow>
   length (filter P xs) \<le> 1"
proof (induction xs)
  case Nil
  then show ?case by simp
next
  case (Cons x xs)
  show ?case
  proof (cases "P x")
    case True
    have "\<not> P y" if "y \<in> set xs" for y
      using Cons.prems(2)[of x y] Cons.prems(1) that True by auto
    then have "filter P xs = []" by (simp add: filter_empty_conv)
    then show ?thesis using True by simp
  next
    case False
    then show ?thesis using Cons by simp
  qed
qed

lemma set_places:
  "set (places cfg n) =
     insert Free_list {Bucket d b | d b. d < n \<and> b < DWARF_CFA_STACK_BUCKET_COUNT cfg}"
  by (auto simp: places_def)

lemma distinct_places: "distinct (places cfg n)"
proof -
  have "distinct (concat (map (\<lambda>d. map (Bucket d) [0..<DWARF_CFA_STACK_BUCKET_COUNT cfg]) [0..<n]))"
    by (rule distinct_concat_upt) (auto simp: distinct_map inj_on_def)
  then show ?thesis by (auto simp: places_def)
qed

text \<open>
  Claim C3, amended. In every reachable state an entry index is reachable from at most
  one place among the free list and the bucket chains of the levels in use.
\<close>

theorem pool_partition_at_most_one:
  assumes "reachable cfg s"
  shows "length (owners cfg s (table_depth s + 1) i) \<le> 1"
  unfolding owners_def
proof (rule filter_at_most_one[OF distinct_places])
  fix p q
  assume p: "p \<in> set (places cfg (table_depth s + 1))" and q: "q \<in> set (places cfg (table_depth s + 1))"
    and ip: "i \<in> set (place_chain cfg s p)" and iq: "i \<in> set (place_chain cfg s q)"
  have wf: "wf cfg s" using assms by (rule reachable_wf)
  show "p = q"
  proof (cases p)
    case Free_list
    show ?thesis
    proof (cases q)
      case (Bucket d b)
      then have "d \<le> table_depth s" "b < DWARF_CFA_STACK_BUCKET_COUNT cfg"
        using q by (auto simp: set_places)
      then show ?thesis using wfD(3)[OF wf, of d b] ip iq Free_list Bucket by auto
    qed (simp add: Free_list)
  next
    case (Bucket d b)
    then have db: "d \<le> table_depth s" "b < DWARF_CFA_STACK_BUCKET_COUNT cfg"
      using p by (auto simp: set_places)
    show ?thesis
    proof (cases q)
      case Free_list
      then show ?thesis using wfD(3)[OF wf db] ip iq Bucket by auto
    next
      case q': (Bucket d' b')
      then have db': "d' \<le> table_depth s" "b' < DWARF_CFA_STACK_BUCKET_COUNT cfg"
        using q by (auto simp: set_places)
      show ?thesis
      proof (rule ccontr)
        assume "p \<noteq> q"
        then have "(d, b) \<noteq> (d', b')" using Bucket q' by simp
        then show False using wfD(4)[OF wf db db'] ip iq Bucket q' by auto
      qed
    qed
  qed
qed

theorem pool_partition_at_most_one_witness:
  "reachable cfg_small one_register \<and>
   length (owners cfg_small one_register (table_depth one_register + 1) 0) \<le> 1 \<and>
   owners cfg_small one_register (table_depth one_register + 1) 0 = [Bucket 0 1] \<and>
   owners cfg_small one_register (table_depth one_register + 1) 2 = [Free_list]"
proof -
  have "owners cfg_small one_register (table_depth one_register + 1) 0 = [Bucket 0 1]" by code_simp
  moreover have "owners cfg_small one_register (table_depth one_register + 1) 2 = [Free_list]" by code_simp
  ultimately show ?thesis
    using reachable_one_register pool_partition_at_most_one[OF reachable_one_register, of 0] by simp
qed

lemma reachable_leaked_entry: "reachable cfg_small leaked_entry"
proof -
  have 1: "push_state cfg_small fresh_small = Inr (True,
     \<lparr>entries = [\<lparr>e_regnum = 0, e_rule = 0, e_value = 0, e_next = 1\<rparr>,
                 \<lparr>e_regnum = 0, e_rule = 0, e_value = 0, e_next = 2\<rparr>,
                 \<lparr>e_regnum = 0, e_rule = 0, e_value = 0, e_next = 3\<rparr>,
                 \<lparr>e_regnum = 0, e_rule = 0, e_value = 0, e_next = 255\<rparr>],
      free_list = 0, table_stack = [[255, 255], [255, 255], [7, 7]],
      register_count = [0, 0, 9], table_depth = 1\<rparr>)" (is "_ = Inr (True, ?s1)")
    by code_simp
  have 2: "set_register cfg_small ?s1 1 0 0 = Some (Inr (True,
     \<lparr>entries = [\<lparr>e_regnum = 1, e_rule = 0, e_value = 0, e_next = 255\<rparr>,
                 \<lparr>e_regnum = 0, e_rule = 0, e_value = 0, e_next = 2\<rparr>,
                 \<lparr>e_regnum = 0, e_rule = 0, e_value = 0, e_next = 3\<rparr>,
                 \<lparr>e_regnum = 0, e_rule = 0, e_value = 0, e_next = 255\<rparr>],
      free_list = 1, table_stack = [[255, 255], [255, 0], [7, 7]],
      register_count = [0, 1, 9], table_depth = 1\<rparr>))" (is "_ = Some (Inr (True, ?s2))")
    by code_simp
  have 3: "pop_state cfg_small ?s2 = Inr (True,
     \<lparr>entries = [\<lparr>e_regnum = 1, e_rule = 0, e_value = 0, e_next = 255\<rparr>,
                 \<lparr>e_regnum = 0, e_rule = 0, e_value = 0, e_next = 2\<rparr>,
                 \<lparr>e_regnum = 0, e_rule = 0, e_value = 0, e_next = 3\<rparr>,
                 \<lparr>e_regnum = 0, e_rule = 0, e_value = 0, e_next = 255\<rparr>],
      free_list = 1, table_stack = [[255, 255], [255, 0], [7, 7]],
      register_count = [0, 1, 9], table_depth = 0\<rparr>)" (is "_ = Inr (True, ?s3)")
    by code_simp
  have 4: "push_state cfg_small ?s3 = Inr (True, leaked_entry)"
    by code_simp
  show ?thesis
    using reachable_fresh_small step.push[OF 1] step.set[OF 2] step.pop[OF 3] step.push[OF 4]
    by (meson reachable.step)
qed

text \<open>
  Claim C3 as stated also has every entry reachable from some place. After
  \<open>push_state\<close>, \<open>set_register(1, 0, 0)\<close>, \<open>pop_state\<close>, \<open>push_state\<close> entry 0 is reachable
  from no place at all: not from the free list and from no bucket of any of the three
  levels. \<open>pop_state\<close> left it chained at level 1, and the second \<open>push_state\<close> cleared the
  bucket heads of that level.
\<close>

theorem pool_partition_counterexample:
  "reachable cfg_small leaked_entry \<and>
   0 < DWARF_CFA_STACK_MAX_REGISTERS cfg_small \<and>
   owners cfg_small leaked_entry (DWARF_CFA_STACK_MAX_STATES cfg_small) 0 = []"
proof -
  have "0 < DWARF_CFA_STACK_MAX_REGISTERS cfg_small \<and>
   owners cfg_small leaked_entry (DWARF_CFA_STACK_MAX_STATES cfg_small) 0 = []" by code_simp
  then show ?thesis using reachable_leaked_entry by simp
qed

section \<open>The iterator\<close>











section \<open>Completeness and order of the enumeration\<close>








text \<open>
  Claim C5 as stated, for every reachable state, does not hold when the first call fails.
  With all four entries of the pool in use by registers 1 to 4, \<open>set_register(5, 1, 1)\<close>
  finds no entry for register 5 and an empty free list and returns false; so does
  \<open>set_register(5, 2, 2)\<close> after it. The state is unchanged, the level holds no entry for
  register 5 and \<open>get_register_rule\<close> does not find it.
\<close>

theorem idempotent_update_counterexample:
  "reachable cfg_small full_pool \<and>
   set_register cfg_small full_pool 5 1 1 = Some (Inr (False, full_pool)) \<and>
   set_register cfg_small full_pool 5 2 2 = Some (Inr (False, full_pool)) \<and>
   filter (\<lambda>t. fst t = 5) (level_view cfg_small full_pool (table_depth full_pool)) = [] \<and>
   get_register_rule cfg_small full_pool 5 = Some (Inr None)"
proof -
  have a: "set_register cfg_small full_pool 5 1 1 = Some (Inr (False, full_pool))" by code_simp
  have b: "set_register cfg_small full_pool 5 2 2 = Some (Inr (False, full_pool))" by code_simp
  have c: "level_view cfg_small full_pool (table_depth full_pool) =
             [(2, 0, 0), (4, 0, 0), (1, 0, 0), (3, 0, 0)]" by code_simp
  have d: "get_register_rule cfg_small full_pool 5 = Some (Inr None)" by code_simp
  show ?thesis using reachable_full_pool a b d by (simp add: c)
qed

section \<open>Save and restore\<close>

lemma bucket_view_cong:
  assumes "entries s' = entries s" and "table_stack s' ! d ! b = table_stack s ! d ! b"
  shows "bucket_view cfg s' d b = bucket_view cfg s d b"
  using assms by (simp add: bucket_view_def bucket_chain_def chain_from_def nexts_def entry_triple_def)

lemma push_frame:
  assumes wf: "wf cfg s" and p: "push_state cfg s = Inr (ok, s')" and d: "d \<le> table_depth s"
  shows "bucket_view cfg s' d b = bucket_view cfg s d b"
proof (rule bucket_view_cong)
  show "entries s' = entries s"
    using p push_state_eq[OF wfD(1)[OF wf]] by (auto split: if_splits)
  show "table_stack s' ! d ! b = table_stack s ! d ! b"
    using p push_state_eq[OF wfD(1)[OF wf]] d by (auto split: if_splits)
qed

lemma pop_frame:
  assumes p: "pop_state cfg s = Inr (ok, s')"
  shows "bucket_view cfg s' d b = bucket_view cfg s d b"
  using p by (intro bucket_view_cong) (auto simp: pop_state_def split: if_splits)

lemma set_frame:
  assumes wf: "wf cfg s" and st: "set_register cfg s r rule v = Some (Inr (ok, s'))"
    and d: "d < table_depth s" and b: "b < DWARF_CFA_STACK_BUCKET_COUNT cfg"
  shows "bucket_view cfg s' d b = bucket_view cfg s d b"
proof (cases "find (\<lambda>i. e_regnum (entries s ! i) = r)
     (bucket_chain cfg s (table_depth s) (unat r mod DWARF_CFA_STACK_BUCKET_COUNT cfg))")
  case None
  show ?thesis
  proof (cases "free_list s = DWARF_CFA_STACK_INVALID_ENTRY_IDX cfg")
    case True
    then have "s' = s" using st set_register_eq[OF wf, of r rule v] None by simp
    then show ?thesis by simp
  next
    case False
    have s': "s' = set_register_insert cfg (unat r mod DWARF_CFA_STACK_BUCKET_COUNT cfg)
        (if bucket_chain cfg s (table_depth s) (unat r mod DWARF_CFA_STACK_BUCKET_COUNT cfg) = [] then None
         else Some (last (bucket_chain cfg s (table_depth s) (unat r mod DWARF_CFA_STACK_BUCKET_COUNT cfg))))
        r rule v s"
      using st set_register_eq[OF wf, of r rule v] None False by simp
    have "d \<le> table_depth s" using d by simp
    from insert_bucket_view[OF wf False None s' this b] d show ?thesis by simp
  qed
next
  case (Some i)
  have s': "s' = s\<lparr>entries := (entries s)[i := (entries s ! i)\<lparr>e_rule := rule, e_value := v\<rparr>]\<rparr>"
    using st set_register_eq[OF wf, of r rule v] Some by simp
  show ?thesis using update_level_view(2)[OF wf Some s' d b] .
qed

lemma remove_frame:
  assumes wf: "wf cfg s" and rm: "remove_register cfg s r = Some (Inr s')"
    and d: "d < table_depth s" and b: "b < DWARF_CFA_STACK_BUCKET_COUNT cfg"
  shows "bucket_view cfg s' d b = bucket_view cfg s d b"
proof (cases "\<forall>i\<in>set (bucket_chain cfg s (table_depth s) (unat r mod DWARF_CFA_STACK_BUCKET_COUNT cfg)).
                 e_regnum (entries s ! i) \<noteq> r")
  case True
  then show ?thesis using remove_register_miss[OF wf True] rm by simp
next
  case False
  let ?bk = "unat r mod DWARF_CFA_STACK_BUCKET_COUNT cfg"
  let ?P = "\<lambda>i. e_regnum (entries s ! i) = r"
  obtain pre e post where xs: "bucket_chain cfg s (table_depth s) ?bk = pre @ e # post"
    and e: "?P e" and pre: "\<forall>i\<in>set pre. \<not> ?P i"
    using False split_list_first_prop[of "bucket_chain cfg s (table_depth s) ?bk" ?P] by blast
  have bk: "?bk < DWARF_CFA_STACK_BUCKET_COUNT cfg" using wf_config[OF wf] by (rule bucket_lt)
  have s': "s' = remove_register_unlink ?bk (if pre = [] then None else Some (last pre)) e s"
    using remove_register_hit[OF wf xs pre e] rm by (simp split: if_splits)
  have "d \<le> table_depth s" using d by simp
  from unlink_bucket_view[OF wf bk xs s' this b] d show ?thesis by simp
qed

lemma step_frame:
  assumes st: "step cfg s s'" and wf: "wf cfg s"
    and d: "d < table_depth s" and b: "b < DWARF_CFA_STACK_BUCKET_COUNT cfg"
  shows "bucket_view cfg s' d b = bucket_view cfg s d b"
  using st
proof (cases rule: step.cases)
  case (push ok)
  show ?thesis using push_frame[OF wf push] d by simp
next
  case (pop ok)
  show ?thesis using pop_frame[OF pop] .
next
  case (set regnum rule v ok)
  show ?thesis using set_frame[OF wf set d b] .
next
  case (remove regnum)
  show ?thesis using remove_frame[OF wf remove d b] .
qed

lemma level_view_frame:
  assumes "\<And>b. b < DWARF_CFA_STACK_BUCKET_COUNT cfg \<Longrightarrow> bucket_view cfg s' d b = bucket_view cfg s d b"
  shows "level_view cfg s' d = level_view cfg s d"
  unfolding level_view_def by (rule arg_cong[where f = concat]) (simp add: assms)

lemma nested_frame:
  assumes "nested cfg d s s'" and "wf cfg s" and "d < table_depth s"
  shows "wf cfg s' \<and> d < table_depth s' \<and> level_view cfg s' d = level_view cfg s d"
  using assms
proof (induction rule: nested.induct)
  case (none s)
  then show ?case by simp
next
  case (call s s' s'')
  have ih: "wf cfg s'" "d < table_depth s'" "level_view cfg s' d = level_view cfg s d"
    using call.IH call.prems by simp_all
  have "level_view cfg s'' d = level_view cfg s' d"
    by (rule level_view_frame) (rule step_frame[OF call.hyps(2) ih(1) ih(2)])
  then show ?case using wf_step[OF call.hyps(2) ih(1)] call.hyps(3) ih(3) by simp
qed

lemma card_visible:
  assumes wf: "wf cfg s"
  shows "get_register_count s =
     Inr (card {(k, x, y). get_register_rule cfg s k = Some (Inr (Some (x, y)))})"
proof -
  have "distinct (map fst (level_view cfg s (table_depth s)))"
    using level_view_distinct[OF wf] by simp
  then have "distinct (level_view cfg s (table_depth s))" by (rule distinct_map[THEN iffD1, THEN conjunct1])
  then have "card (set (level_view cfg s (table_depth s))) = length (level_view cfg s (table_depth s))"
    by (rule distinct_card)
  then show ?thesis using get_register_count_eq[OF wf] visible_triples[OF wf] by simp
qed

text \<open>
  Claim C1. Let \<open>push_state\<close> succeed in a reachable state \<open>s\<close> of depth \<open>d\<close>; let any
  sequence of calls of \<open>set_register\<close>, \<open>remove_register\<close>, \<open>push_state\<close> and \<open>pop_state\<close>
  follow, during which the depth stays above \<open>d\<close>; and let the \<open>pop_state\<close> that matches the
  push bring the depth back to \<open>d\<close>. Then \<open>get_register_rule\<close> answers for every register
  what it answered in \<open>s\<close>, the set of triples it finds is the same, and
  \<open>get_register_count\<close> returns what it returned in \<open>s\<close>: the size of that set.
\<close>

theorem save_restore_round_trip:
  assumes "reachable cfg s"
    and "push_state cfg s = Inr (True, s1)"
    and "nested cfg (table_depth s) s1 s2"
    and "pop_state cfg s2 = Inr (True, s3)"
    and "table_depth s3 = table_depth s"
  shows "get_register_rule cfg s3 k = get_register_rule cfg s k \<and>
         {(k, x, y). get_register_rule cfg s3 k = Some (Inr (Some (x, y)))} =
           {(k, x, y). get_register_rule cfg s k = Some (Inr (Some (x, y)))} \<and>
         get_register_count s3 = get_register_count s \<and>
         get_register_count s =
           Inr (card {(k, x, y). get_register_rule cfg s k = Some (Inr (Some (x, y)))})"
proof -
  let ?d = "table_depth s"
  have wf: "wf cfg s" using assms(1) by (rule reachable_wf)
  have wf1: "wf cfg s1" using wf_push[OF wf assms(2)] .
  have d1: "table_depth s1 = ?d + 1"
    using assms(2) push_state_eq[OF wfD(1)[OF wf]] by (auto split: if_splits)
  have lv1: "level_view cfg s1 ?d = level_view cfg s ?d"
    by (rule level_view_frame) (rule push_frame[OF wf assms(2) le_refl])
  have n: "wf cfg s2" "level_view cfg s2 ?d = level_view cfg s1 ?d"
    using nested_frame[OF assms(3) wf1] d1 by simp_all
  have wf3: "wf cfg s3" using wf_pop[OF n(1) assms(4)] .
  have lv3: "level_view cfg s3 ?d = level_view cfg s2 ?d"
    by (rule level_view_frame) (rule pop_frame[OF assms(4)])
  have lv: "level_view cfg s3 (table_depth s3) = level_view cfg s (table_depth s)"
    using lv1 n(2) lv3 assms(5) by simp
  have g: "get_register_rule cfg s3 k = get_register_rule cfg s k" for k
    by (simp add: get_register_rule_eq[OF wf3] get_register_rule_eq[OF wf] lv)
  have c: "get_register_count s3 = get_register_count s"
    by (simp add: get_register_count_eq[OF wf3] get_register_count_eq[OF wf] lv)
  show ?thesis using g c card_visible[OF wf] by simp
qed

theorem save_restore_round_trip_witness:
  "reachable cfg_small one_register \<and>
   push_state cfg_small one_register = Inr (True, frame_pushed) \<and>
   set_register cfg_small frame_pushed 1 7 8 = Some (Inr (True, frame_set)) \<and>
   get_register_rule cfg_small frame_set 1 = Some (Inr (Some (7, 8))) \<and>
   remove_register cfg_small frame_set 1 = Some (Inr frame_removed) \<and>
   nested cfg_small (table_depth one_register) frame_pushed frame_removed \<and>
   pop_state cfg_small frame_removed = Inr (True, frame_popped) \<and>
   table_depth frame_popped = table_depth one_register \<and>
   get_register_rule cfg_small frame_popped 1 = get_register_rule cfg_small one_register 1 \<and>
   get_register_rule cfg_small one_register 1 = Some (Inr (Some (5, 6))) \<and>
   get_register_count frame_popped = get_register_count one_register \<and>
   get_register_count one_register = Inr 1"
proof -
  have p: "push_state cfg_small one_register = Inr (True, frame_pushed)" by code_simp
  have s: "set_register cfg_small frame_pushed 1 7 8 = Some (Inr (True, frame_set))" by code_simp
  have g: "get_register_rule cfg_small frame_set 1 = Some (Inr (Some (7, 8)))" by code_simp
  have r: "remove_register cfg_small frame_set 1 = Some (Inr frame_removed)" by code_simp
  have q: "pop_state cfg_small frame_removed = Inr (True, frame_popped)" by code_simp
  have d: "table_depth frame_popped = table_depth one_register"
    by (simp add: frame_popped_def one_register_def)
  have d1: "table_depth one_register < table_depth frame_set"
    by (simp add: frame_set_def one_register_def)
  have d2: "table_depth one_register < table_depth frame_removed"
    by (simp add: frame_removed_def one_register_def)
  have n: "nested cfg_small (table_depth one_register) frame_pushed frame_removed"
    by (rule nested.call[OF nested.call[OF nested.none step.set[OF s] d1] step.remove[OF r] d2])
  have g0: "get_register_rule cfg_small one_register 1 = Some (Inr (Some (5, 6)))" by code_simp
  have c0: "get_register_count one_register = Inr 1" by code_simp
  show ?thesis
    using reachable_one_register p s g r n q d g0 c0
      save_restore_round_trip[OF reachable_one_register p n q d, of 1]
    by simp
qed

end
